theory Spec2Isabelle
  imports Complex_Main
begin

section \<open>The LP file reader of \<open>extern/filereaderlp/reader.cpp\<close>\<close>

text \<open>
  The development embeds the reader from its raw tokens on: the classifier
  \<open>Reader::processtokens\<close>, the section splitter \<open>Reader::splittokens\<close>, the
  section processors and \<open>Reader::parseexpression\<close>. The lexer
  (\<open>Reader::readnexttoken\<close>) is not embedded: it rests on \<open>strtod\<close>.

  A vector read by index is a list read with \<open>!\<close> under the size tests of the
  source. Each loop body with its \<open>continue\<close> and \<open>break\<close> is a step function, and
  the loop a recursion on the index that stops at the size. A failed \<open>lpassert\<close>
  is the result \<open>Inl ParseError\<close>.

  A \<open>double\<close> is only stored, negated and compared with \<open>2.0\<close> by this code, so it
  is abstracted to a real number or one of the three special values; the two zeros
  of the machine, which this code cannot tell apart, are one.

  Where a name of the source is taken in the syntax of the logic, the constructor
  has a prefix: \<open>R_STR\<close>, \<open>P_CONST\<close>, \<open>OS_MIN\<close>, \<open>SENSE_MIN\<close>, and the enumerators
  \<open>NONE\<close> and the brackets of the two token types are told apart by \<open>R_\<close> and \<open>P_\<close>.
\<close>

subsection \<open>Tokens\<close>

datatype lpdouble = Fin real | PInf | MInf | NaN

fun dneg :: "lpdouble \<Rightarrow> lpdouble" where
  "dneg (Fin r) = Fin (- r)"
| "dneg PInf = MInf"
| "dneg MInf = PInf"
| "dneg NaN = NaN"

text \<open>\<open>struct RawToken\<close> and its two subclasses, tagged by \<open>RawTokenType\<close>.\<close>

datatype RawToken =
    R_NONE
  | is_STR: R_STR (strvalue: string)
  | is_CONS: CONS (consvalue: lpdouble)
  | LESS
  | GREATER
  | EQUAL
  | COLON
  | R_LNEND
  | FLEND
  | R_BRKOP
  | R_BRKCL
  | PLUS
  | MINUS
  | R_HAT
  | R_SLASH
  | R_ASTERISK

datatype LpSectionKeyword = SEC_NONE | OBJ | CON | BOUNDS | GEN | BIN | SEMI | SOS | END

datatype LpObjectiveSectionKeywordType = OS_NONE | OS_MIN | OS_MAX

datatype LpComparisonType = LEQ | L | EQ | G | GEQ

text \<open>
  \<open>struct ProcessedToken\<close> and its subclasses, tagged by \<open>ProcessedTokenType\<close>.
  \<open>SECID k s\<close> stands for both \<open>ProcessedTokenSectionKeyword(k)\<close>, written
  \<open>SECID k OS_NONE\<close>, and \<open>ProcessedTokenObjectiveSectionKeyword(s)\<close>, written
  \<open>SECID OBJ s\<close>.
\<close>

datatype ProcessedToken =
    P_NONE
  | is_SECID: SECID (keyword: LpSectionKeyword) (objsense: LpObjectiveSectionKeywordType)
  | is_VARID: VARID (varname: string)
  | is_CONID: CONID (conname: string)
  | is_CONST: P_CONST (constvalue: lpdouble)
  | FREE
  | BRKOP
  | BRKCL
  | is_COMP: COMP (dir: LpComparisonType)
  | P_LNEND
  | SLASH
  | ASTERISK
  | HAT
  | is_SOSTYPE: SOSTYPE (sostype: string)

text \<open>
  Modelled from the spec: \<open>lpassert\<close> (of \<open>def.hpp\<close>, not among the sources) aborts
  the parse with the single failure value of \<open>read\<close>.
\<close>

datatype error = ParseError

subsection \<open>Keywords\<close>

text \<open>\<open>tolower\<close> of the C library, in the "C" locale.\<close>

definition tolower :: "char \<Rightarrow> char" where
  "tolower c =
     (let n = (of_char c :: nat)
      in if 65 \<le> n \<and> n \<le> 90 then char_of (n + 32) else c)"

fun isstrequalnocase :: "string \<Rightarrow> string \<Rightarrow> bool" where
  "isstrequalnocase [] [] = True"
| "isstrequalnocase (a # as) (b # bs) = (tolower a = tolower b \<and> isstrequalnocase as bs)"
| "isstrequalnocase _ _ = False"

definition iskeyword :: "string \<Rightarrow> string list \<Rightarrow> bool" where
  "iskeyword str keywords = list_ex (isstrequalnocase str) keywords"

text \<open>
  Modelled from the spec: the keyword tables \<open>LP_KEYWORD_*\<close> (of \<open>def.hpp\<close>, not
  among the sources), from the section keyword table and productions 3 and 4 of
  the classifier.
\<close>

definition LP_KEYWORD_MIN :: "string list" where
  "LP_KEYWORD_MIN = [''minimize'', ''minimum'', ''min'']"

definition LP_KEYWORD_MAX :: "string list" where
  "LP_KEYWORD_MAX = [''maximize'', ''maximum'', ''max'']"

definition LP_KEYWORD_ST :: "string list" where
  "LP_KEYWORD_ST = [''subject to'', ''such that'', ''st'', ''s.t.'']"

definition LP_KEYWORD_BOUNDS :: "string list" where
  "LP_KEYWORD_BOUNDS = [''bounds'', ''bound'']"

definition LP_KEYWORD_GEN :: "string list" where
  "LP_KEYWORD_GEN = [''general'', ''generals'', ''gen'']"

definition LP_KEYWORD_BIN :: "string list" where
  "LP_KEYWORD_BIN = [''binary'', ''binaries'', ''bin'']"

definition LP_KEYWORD_SEMI :: "string list" where
  "LP_KEYWORD_SEMI = [''semi-continuous'', ''semi'']"

definition LP_KEYWORD_SOS :: "string list" where
  "LP_KEYWORD_SOS = [''sos'']"

definition LP_KEYWORD_END :: "string list" where
  "LP_KEYWORD_END = [''end'']"

definition LP_KEYWORD_FREE :: "string list" where
  "LP_KEYWORD_FREE = [''free'']"

definition LP_KEYWORD_INF :: "string list" where
  "LP_KEYWORD_INF = [''infinity'', ''inf'']"

definition parseobjectivesectionkeyword :: "string \<Rightarrow> LpObjectiveSectionKeywordType" where
  "parseobjectivesectionkeyword str =
     (if iskeyword str LP_KEYWORD_MIN then OS_MIN
      else if iskeyword str LP_KEYWORD_MAX then OS_MAX
      else OS_NONE)"

definition parsesectionkeyword :: "string \<Rightarrow> LpSectionKeyword" where
  "parsesectionkeyword str =
     (if parseobjectivesectionkeyword str \<noteq> OS_NONE then OBJ
      else if iskeyword str LP_KEYWORD_ST then CON
      else if iskeyword str LP_KEYWORD_BOUNDS then BOUNDS
      else if iskeyword str LP_KEYWORD_BIN then BIN
      else if iskeyword str LP_KEYWORD_GEN then GEN
      else if iskeyword str LP_KEYWORD_SEMI then SEMI
      else if iskeyword str LP_KEYWORD_SOS then SOS
      else if iskeyword str LP_KEYWORD_END then END
      else SEC_NONE)"

subsection \<open>The classifier: \<open>Reader::processtokens\<close>\<close>

text \<open>
  One turn of the \<open>while\<close> loop at index \<open>i < rawtokens.size()\<close>: the tokens pushed
  onto \<open>processedtokens\<close> (none or one) and the new index, or the failure of
  \<open>lpassert(false)\<close>. The branches stand in the order of the source. The
  differences \<open>rawtokens.size() - i\<close> are taken where \<open>i\<close> is below the size.
\<close>

definition processtokens_step :: "RawToken list \<Rightarrow> nat \<Rightarrow> error + (ProcessedToken list \<times> nat)" where
  "processtokens_step rawtokens i =
     (if length rawtokens - i \<ge> 3 \<and> is_STR (rawtokens ! i) \<and> rawtokens ! (i + 1) = MINUS
         \<and> is_STR (rawtokens ! (i + 2))
         \<and> parsesectionkeyword
             (strvalue (rawtokens ! i) @ ''-'' @ strvalue (rawtokens ! (i + 2))) \<noteq> SEC_NONE
      then Inr ([SECID (parsesectionkeyword
                  (strvalue (rawtokens ! i) @ ''-'' @ strvalue (rawtokens ! (i + 2)))) OS_NONE],
                i + 3)
      else if length rawtokens - i \<ge> 2 \<and> is_STR (rawtokens ! i) \<and> is_STR (rawtokens ! (i + 1))
         \<and> parsesectionkeyword
             (strvalue (rawtokens ! i) @ '' '' @ strvalue (rawtokens ! (i + 1))) \<noteq> SEC_NONE
      then Inr ([SECID (parsesectionkeyword
                  (strvalue (rawtokens ! i) @ '' '' @ strvalue (rawtokens ! (i + 1)))) OS_NONE],
                i + 2)
      else if is_STR (rawtokens ! i)
         \<and> parsesectionkeyword (strvalue (rawtokens ! i)) \<noteq> SEC_NONE
      then (if parsesectionkeyword (strvalue (rawtokens ! i)) = OBJ
            then Inr ([SECID OBJ (parseobjectivesectionkeyword (strvalue (rawtokens ! i)))], i + 1)
            else Inr ([SECID (parsesectionkeyword (strvalue (rawtokens ! i))) OS_NONE], i + 1))
      else if length rawtokens - i \<ge> 3 \<and> is_STR (rawtokens ! i) \<and> rawtokens ! (i + 1) = COLON
         \<and> rawtokens ! (i + 2) = COLON
      then Inr ([SOSTYPE (strvalue (rawtokens ! i))], i + 3)
      else if length rawtokens - i \<ge> 2 \<and> is_STR (rawtokens ! i) \<and> rawtokens ! (i + 1) = COLON
      then Inr ([CONID (strvalue (rawtokens ! i))], i + 2)
      else if is_STR (rawtokens ! i) \<and> iskeyword (strvalue (rawtokens ! i)) LP_KEYWORD_FREE
      then Inr ([FREE], i + 1)
      else if is_STR (rawtokens ! i) \<and> iskeyword (strvalue (rawtokens ! i)) LP_KEYWORD_INF
      then Inr ([P_CONST PInf], i + 1)
      else if is_STR (rawtokens ! i)
      then Inr ([VARID (strvalue (rawtokens ! i))], i + 1)
      else if length rawtokens - i \<ge> 2 \<and> rawtokens ! i = PLUS \<and> is_CONS (rawtokens ! (i + 1))
      then Inr ([P_CONST (consvalue (rawtokens ! (i + 1)))], i + 2)
      else if length rawtokens - i \<ge> 2 \<and> rawtokens ! i = MINUS \<and> is_CONS (rawtokens ! (i + 1))
      then Inr ([P_CONST (dneg (consvalue (rawtokens ! (i + 1))))], i + 2)
      else if length rawtokens - i \<ge> 2 \<and> rawtokens ! i = PLUS \<and> rawtokens ! (i + 1) = R_BRKOP
      then Inr ([BRKOP], i + 2)
      else if rawtokens ! i = PLUS then Inr ([P_CONST (Fin 1)], i + 1)
      else if rawtokens ! i = MINUS then Inr ([P_CONST (Fin (- 1))], i + 1)
      else if is_CONS (rawtokens ! i) then Inr ([P_CONST (consvalue (rawtokens ! i))], i + 1)
      else if rawtokens ! i = R_BRKOP then Inr ([BRKOP], i + 1)
      else if rawtokens ! i = R_BRKCL then Inr ([BRKCL], i + 1)
      else if rawtokens ! i = R_SLASH then Inr ([SLASH], i + 1)
      else if rawtokens ! i = R_ASTERISK then Inr ([ASTERISK], i + 1)
      else if rawtokens ! i = R_HAT then Inr ([HAT], i + 1)
      else if length rawtokens - i \<ge> 2 \<and> rawtokens ! i = LESS \<and> rawtokens ! (i + 1) = EQUAL
      then Inr ([COMP LEQ], i + 2)
      else if rawtokens ! i = LESS then Inr ([COMP L], i + 1)
      else if length rawtokens - i \<ge> 2 \<and> rawtokens ! i = GREATER \<and> rawtokens ! (i + 1) = EQUAL
      then Inr ([COMP GEQ], i + 2)
      else if rawtokens ! i = GREATER then Inr ([COMP G], i + 1)
      else if rawtokens ! i = EQUAL then Inr ([COMP EQ], i + 1)
      else if rawtokens ! i = FLEND then Inr ([], i + 1)
      else Inl ParseError)"

lemma processtokens_step_advances:
  "processtokens_step rawtokens i = Inr (out, j) \<Longrightarrow> i < j"
  unfolding processtokens_step_def by (auto split: if_splits)

function processtokens_loop ::
  "RawToken list \<Rightarrow> nat \<Rightarrow> ProcessedToken list \<Rightarrow> error + ProcessedToken list" where
  "processtokens_loop rawtokens i processedtokens =
     (if i < length rawtokens
      then (case processtokens_step rawtokens i of
              Inl e \<Rightarrow> Inl e
            | Inr (out, j) \<Rightarrow> processtokens_loop rawtokens j (processedtokens @ out))
      else Inr processedtokens)"
  by pat_completeness auto
termination
  by (relation "measure (\<lambda>(rawtokens, i, processedtokens). length rawtokens - i)")
     (auto dest: processtokens_step_advances)

declare processtokens_loop.simps [simp del]

definition processtokens :: "RawToken list \<Rightarrow> error + ProcessedToken list" where
  "processtokens rawtokens = processtokens_loop rawtokens 0 []"

subsection \<open>The model and its builder\<close>

text \<open>
  Modelled from the spec: the model and the builder (of \<open>model.hpp\<close> and
  \<open>builder.hpp\<close>, not among the sources), from the data model: a variable has
  lower bound 0, upper bound +infinity and type continuous until stated otherwise,
  an expression has offset 0, a constraint is unbounded on both sides until its
  comparison is read, and the builder interns variables by name.

  The source shares each \<open>Variable\<close> object between the builder, the model and the
  terms through pointers, and the section processors write through them. Here the
  objects live in the store \<open>variables\<close> of the builder, addressed by name, and a
  pointer is the name.
\<close>

datatype VariableType = CONTINUOUS | BINARY | GENERAL | SEMICONTINUOUS | SEMIINTEGER

datatype ObjectiveSense = SENSE_MIN | SENSE_MAX

record Variable =
  var_type :: VariableType
  var_lowerbound :: lpdouble
  var_upperbound :: lpdouble
  var_name :: string

record LinTerm =
  lt_coef :: lpdouble
  lt_var :: string

record QuadTerm =
  qt_coef :: lpdouble
  qt_var1 :: string
  qt_var2 :: string

record Expression =
  linterms :: "LinTerm list"
  quadterms :: "QuadTerm list"
  offset :: lpdouble
  name :: string

record Constraint =
  con_lowerbound :: lpdouble
  con_upperbound :: lpdouble
  con_expr :: Expression

record SOSset =
  sos_name :: string
  sos_type :: nat
  sos_entries :: "(string \<times> lpdouble) list"

record Model =
  sense :: ObjectiveSense
  objective :: Expression
  constraints :: "Constraint list"
  soss :: "SOSset list"
  model_variables :: "string list"

record Builder =
  variables :: "string \<rightharpoonup> Variable"
  model :: Model

definition new_Variable :: "string \<Rightarrow> Variable" where
  "new_Variable n =
     \<lparr>var_type = CONTINUOUS, var_lowerbound = Fin 0, var_upperbound = PInf, var_name = n\<rparr>"

definition new_Expression :: Expression where
  "new_Expression = \<lparr>linterms = [], quadterms = [], offset = Fin 0, name = []\<rparr>"

definition new_Constraint :: Constraint where
  "new_Constraint =
     \<lparr>con_lowerbound = MInf, con_upperbound = PInf, con_expr = new_Expression\<rparr>"

definition new_Builder :: Builder where
  "new_Builder =
     \<lparr>variables = Map.empty,
      model = \<lparr>sense = SENSE_MIN, objective = new_Expression, constraints = [], soss = [],
               model_variables = []\<rparr>\<rparr>"

definition getvarbyname :: "Builder \<Rightarrow> string \<Rightarrow> Builder" where
  "getvarbyname b n =
     (if variables b n = None
      then b\<lparr>variables := (variables b)(n \<mapsto> new_Variable n),
             model := (model b)\<lparr>model_variables := model_variables (model b) @ [n]\<rparr>\<rparr>
      else b)"

text \<open>A write through the pointer that \<open>getvarbyname\<close> returned.\<close>

definition modify_var :: "Builder \<Rightarrow> string \<Rightarrow> (Variable \<Rightarrow> Variable) \<Rightarrow> Builder" where
  "modify_var b n f =
     (case variables b n of
        None \<Rightarrow> b
      | Some v \<Rightarrow> b\<lparr>variables := (variables b)(n \<mapsto> f v)\<rparr>)"

definition add_linterm :: "Expression \<Rightarrow> lpdouble \<Rightarrow> string \<Rightarrow> Expression" where
  "add_linterm expr c n = expr\<lparr>linterms := linterms expr @ [\<lparr>lt_coef = c, lt_var = n\<rparr>]\<rparr>"

definition add_quadterm :: "Expression \<Rightarrow> lpdouble \<Rightarrow> string \<Rightarrow> string \<Rightarrow> Expression" where
  "add_quadterm expr c n1 n2 =
     expr\<lparr>quadterms := quadterms expr @ [\<lparr>qt_coef = c, qt_var1 = n1, qt_var2 = n2\<rparr>]\<rparr>"

subsection \<open>The expression parser: \<open>Reader::parseexpression\<close>\<close>

text \<open>
  One turn of the inner \<open>while\<close> loop of a quadratic block, entered with
  \<open>i < tokens.size()\<close> and \<open>tokens[i]\<close> not a closing bracket: \<open>None\<close> is the
  \<open>break\<close>, \<open>Some\<close> the state after a \<open>continue\<close>.
\<close>

definition quadterm_step ::
  "ProcessedToken list \<Rightarrow> Expression \<Rightarrow> nat \<Rightarrow> Builder
     \<Rightarrow> error + (Expression \<times> nat \<times> Builder) option" where
  "quadterm_step tokens expr i b =
     (if length tokens - i \<ge> 4 \<and> is_CONST (tokens ! i) \<and> is_VARID (tokens ! (i + 1))
         \<and> tokens ! (i + 2) = HAT \<and> is_CONST (tokens ! (i + 3))
      then (if constvalue (tokens ! (i + 3)) = Fin 2
            then Inr (Some (add_quadterm expr (constvalue (tokens ! i))
                              (varname (tokens ! (i + 1))) (varname (tokens ! (i + 1))),
                            i + 4,
                            getvarbyname (getvarbyname b (varname (tokens ! (i + 1))))
                              (varname (tokens ! (i + 1)))))
            else Inl ParseError)
      else if length tokens - i \<ge> 3 \<and> is_VARID (tokens ! i) \<and> tokens ! (i + 1) = HAT
         \<and> is_CONST (tokens ! (i + 2))
      then (if constvalue (tokens ! (i + 2)) = Fin 2
            then Inr (Some (add_quadterm expr (Fin 1) (varname (tokens ! i)) (varname (tokens ! i)),
                            i + 3,
                            getvarbyname (getvarbyname b (varname (tokens ! i)))
                              (varname (tokens ! i))))
            else Inl ParseError)
      else if length tokens - i \<ge> 4 \<and> is_CONST (tokens ! i) \<and> is_VARID (tokens ! (i + 1))
         \<and> tokens ! (i + 2) = ASTERISK \<and> is_VARID (tokens ! (i + 3))
      then Inr (Some (add_quadterm expr (constvalue (tokens ! i))
                        (varname (tokens ! (i + 1))) (varname (tokens ! (i + 3))),
                      i + 4,
                      getvarbyname (getvarbyname b (varname (tokens ! (i + 1))))
                        (varname (tokens ! (i + 3)))))
      else if length tokens - i \<ge> 3 \<and> is_VARID (tokens ! i) \<and> tokens ! (i + 1) = ASTERISK
         \<and> is_VARID (tokens ! (i + 2))
      then Inr (Some (add_quadterm expr (Fin 1) (varname (tokens ! i)) (varname (tokens ! (i + 2))),
                      i + 3,
                      getvarbyname (getvarbyname b (varname (tokens ! i)))
                        (varname (tokens ! (i + 2)))))
      else Inr None)"

lemma quadterm_step_advances:
  "quadterm_step tokens expr i b = Inr (Some (expr', j, b')) \<Longrightarrow> i < j"
  unfolding quadterm_step_def by (auto split: if_splits)

function quadloop ::
  "ProcessedToken list \<Rightarrow> Expression \<Rightarrow> nat \<Rightarrow> Builder
     \<Rightarrow> error + (Expression \<times> nat \<times> Builder)" where
  "quadloop tokens expr i b =
     (if i < length tokens \<and> tokens ! i \<noteq> BRKCL
      then (case quadterm_step tokens expr i b of
              Inl e \<Rightarrow> Inl e
            | Inr None \<Rightarrow> Inr (expr, i, b)
            | Inr (Some (expr', j, b')) \<Rightarrow> quadloop tokens expr' j b')
      else Inr (expr, i, b))"
  by pat_completeness auto
termination
  by (relation "measure (\<lambda>(tokens, expr, i, b). length tokens - i)")
     (auto dest: quadterm_step_advances)

text \<open>
  The checks after the inner loop of a quadratic block, with \<open>i\<close> where that loop
  stopped: the index after the closing bracket, and after \<open>/ 2\<close> in the objective.
\<close>

definition closebracket :: "ProcessedToken list \<Rightarrow> nat \<Rightarrow> bool \<Rightarrow> error + nat" where
  "closebracket tokens i isobj =
     (if isobj
      then (if length tokens - i \<ge> 3 \<and> tokens ! i = BRKCL \<and> tokens ! (i + 1) = SLASH
               \<and> is_CONST (tokens ! (i + 2)) \<and> constvalue (tokens ! (i + 2)) = Fin 2
            then Inr (i + 3) else Inl ParseError)
      else (if length tokens - i \<ge> 1 \<and> tokens ! i = BRKCL
            then Inr (i + 1) else Inl ParseError))"

text \<open>
  One turn of the outer \<open>while\<close> loop, entered with \<open>i < tokens.size()\<close>.
\<close>

definition parseexpression_step ::
  "ProcessedToken list \<Rightarrow> Expression \<Rightarrow> nat \<Rightarrow> Builder \<Rightarrow> bool
     \<Rightarrow> error + (Expression \<times> nat \<times> Builder) option" where
  "parseexpression_step tokens expr i b isobj =
     (if length tokens - i \<ge> 2 \<and> is_CONST (tokens ! i) \<and> is_VARID (tokens ! (i + 1))
      then Inr (Some (add_linterm expr (constvalue (tokens ! i)) (varname (tokens ! (i + 1))),
                      i + 2,
                      getvarbyname b (varname (tokens ! (i + 1)))))
      else if length tokens - i \<ge> 1 \<and> is_CONST (tokens ! i)
      then Inr (Some (expr\<lparr>offset := constvalue (tokens ! i)\<rparr>, i + 1, b))
      else if length tokens - i \<ge> 1 \<and> is_VARID (tokens ! i)
      then Inr (Some (add_linterm expr (Fin 1) (varname (tokens ! i)),
                      i + 1,
                      getvarbyname b (varname (tokens ! i))))
      else if length tokens - i \<ge> 2 \<and> tokens ! i = BRKOP
      then (case quadloop tokens expr (i + 1) b of
              Inl e \<Rightarrow> Inl e
            | Inr (expr', j, b') \<Rightarrow>
                (case closebracket tokens j isobj of
                   Inl e \<Rightarrow> Inl e
                 | Inr k \<Rightarrow> Inr (Some (expr', k, b'))))
      else Inr None)"

declare quadloop.simps [simp del]

lemma quadloop_index:
  "quadloop tokens expr i b = Inr (expr', j, b') \<Longrightarrow> i \<le> j"
proof (induction tokens expr i b rule: quadloop.induct)
  case (1 tokens expr i b)
  note unfold = quadloop.simps [of tokens expr i b]
  show ?case
  proof (cases "i < length tokens \<and> tokens ! i \<noteq> BRKCL")
    case False
    with "1.prems" unfold show ?thesis by simp
  next
    case True
    show ?thesis
    proof (cases "quadterm_step tokens expr i b")
      case (Inl e)
      with True "1.prems" unfold show ?thesis by simp
    next
      case (Inr r)
      show ?thesis
      proof (cases r)
        case None
        with True Inr "1.prems" unfold show ?thesis by simp
      next
        case (Some s)
        obtain e1 j1 b1 where s: "s = (e1, j1, b1)" by (cases s) auto
        have "quadloop tokens e1 j1 b1 = Inr (expr', j, b')"
          using True Inr Some s "1.prems" unfold by simp
        then have "j1 \<le> j"
          using "1.IH" True Inr Some s by simp
        moreover have "i < j1"
          using Inr Some s quadterm_step_advances by blast
        ultimately show ?thesis by simp
      qed
    qed
  qed
qed

lemma closebracket_advances: "closebracket tokens i isobj = Inr k \<Longrightarrow> i < k"
  unfolding closebracket_def by (auto split: if_splits)

lemma parseexpression_step_advances:
  "parseexpression_step tokens expr i b isobj = Inr (Some (expr', j, b')) \<Longrightarrow> i < j"
  unfolding parseexpression_step_def
  by (auto split: if_splits sum.splits dest!: quadloop_index closebracket_advances)

function parseexpression_loop ::
  "ProcessedToken list \<Rightarrow> Expression \<Rightarrow> nat \<Rightarrow> Builder \<Rightarrow> bool
     \<Rightarrow> error + (Expression \<times> nat \<times> Builder)" where
  "parseexpression_loop tokens expr i b isobj =
     (if i < length tokens
      then (case parseexpression_step tokens expr i b isobj of
              Inl e \<Rightarrow> Inl e
            | Inr None \<Rightarrow> Inr (expr, i, b)
            | Inr (Some (expr', j, b')) \<Rightarrow> parseexpression_loop tokens expr' j b' isobj)
      else Inr (expr, i, b))"
  by pat_completeness auto
termination
  by (relation "measure (\<lambda>(tokens, expr, i, b, isobj). length tokens - i)")
     (auto dest: parseexpression_step_advances)

declare parseexpression_loop.simps [simp del]

text \<open>
  The read \<open>((ProcessedConsIdToken*)tokens[i].get())->name\<close>. On a token of another
  class the cast is wrong and the language leaves the value read open; it is the
  parameter \<open>miscast\<close>, of which nothing is assumed.
\<close>

definition read_conid_name :: "(ProcessedToken \<Rightarrow> string) \<Rightarrow> ProcessedToken \<Rightarrow> string" where
  "read_conid_name miscast t = (case t of CONID n \<Rightarrow> n | _ \<Rightarrow> miscast t)"

text \<open>
  The whole function. Its first test reads \<open>tokens[0]\<close>, as the source does. The
  callers keep \<open>i\<close> within the size, so \<open>tokens.size() - i\<close> does not wrap.
\<close>

definition parseexpression ::
  "(ProcessedToken \<Rightarrow> string) \<Rightarrow> ProcessedToken list \<Rightarrow> Expression \<Rightarrow> nat \<Rightarrow> Builder \<Rightarrow> bool
     \<Rightarrow> error + (Expression \<times> nat \<times> Builder)" where
  "parseexpression miscast tokens expr i b isobj =
     (if length tokens - i \<ge> 1 \<and> is_CONID (tokens ! 0)
      then parseexpression_loop tokens
             (expr\<lparr>name := read_conid_name miscast (tokens ! i)\<rparr>) (i + 1) b isobj
      else parseexpression_loop tokens expr i b isobj)"

lemma parseexpression_loop_index:
  "parseexpression_loop tokens expr i b isobj = Inr (expr', j, b') \<Longrightarrow> i \<le> j"
proof (induction tokens expr i b isobj rule: parseexpression_loop.induct)
  case (1 tokens expr i b isobj)
  note unfold = parseexpression_loop.simps [of tokens expr i b isobj]
  show ?case
  proof (cases "i < length tokens")
    case False
    with "1.prems" unfold show ?thesis by simp
  next
    case True
    show ?thesis
    proof (cases "parseexpression_step tokens expr i b isobj")
      case (Inl e)
      with True "1.prems" unfold show ?thesis by simp
    next
      case (Inr r)
      show ?thesis
      proof (cases r)
        case None
        with True Inr "1.prems" unfold show ?thesis by simp
      next
        case (Some s)
        obtain e1 j1 b1 where s: "s = (e1, j1, b1)" by (cases s) auto
        have "parseexpression_loop tokens e1 j1 b1 isobj = Inr (expr', j, b')"
          using True Inr Some s "1.prems" unfold by simp
        then have "j1 \<le> j"
          using "1.IH" True Inr Some s by simp
        moreover have "i < j1"
          using Inr Some s parseexpression_step_advances by blast
        ultimately show ?thesis by simp
      qed
    qed
  qed
qed

lemma parseexpression_index:
  "parseexpression miscast tokens expr i b isobj = Inr (expr', j, b') \<Longrightarrow> i \<le> j"
  unfolding parseexpression_def
  by (auto split: if_splits dest: parseexpression_loop_index)

subsection \<open>The section processors\<close>

type_synonym sections = "LpSectionKeyword \<Rightarrow> ProcessedToken list"

definition processnonesec :: "sections \<Rightarrow> Builder \<Rightarrow> error + Builder" where
  "processnonesec sectiontokens b =
     (if sectiontokens SEC_NONE = [] then Inr b else Inl ParseError)"

definition processobjsec ::
  "(ProcessedToken \<Rightarrow> string) \<Rightarrow> sections \<Rightarrow> Builder \<Rightarrow> error + Builder" where
  "processobjsec miscast sectiontokens b =
     (case parseexpression miscast (sectiontokens OBJ) new_Expression 0 b True of
        Inl e \<Rightarrow> Inl e
      | Inr (expr, i, b') \<Rightarrow>
          if i = length (sectiontokens OBJ)
          then Inr (b'\<lparr>model := (model b')\<lparr>objective := expr\<rparr>\<rparr>)
          else Inl ParseError)"

definition push_constraint :: "Builder \<Rightarrow> Constraint \<Rightarrow> Builder" where
  "push_constraint b con = b\<lparr>model := (model b)\<lparr>constraints := constraints (model b) @ [con]\<rparr>\<rparr>"

text \<open>One turn of the loop of \<open>Reader::processconsec\<close>, entered with \<open>i\<close> below the size.\<close>

definition processconsec_step ::
  "(ProcessedToken \<Rightarrow> string) \<Rightarrow> ProcessedToken list \<Rightarrow> nat \<Rightarrow> Builder
     \<Rightarrow> error + (nat \<times> Builder)" where
  "processconsec_step miscast tokens i b =
     (case parseexpression miscast tokens (con_expr new_Constraint) i b False of
        Inl e \<Rightarrow> Inl e
      | Inr (expr, k, b') \<Rightarrow>
          if length tokens - k \<ge> 2 \<and> is_COMP (tokens ! k) \<and> is_CONST (tokens ! (k + 1))
          then (case dir (tokens ! k) of
                  EQ \<Rightarrow> Inr (k + 2, push_constraint b'
                           (new_Constraint\<lparr>con_expr := expr,
                              con_upperbound := constvalue (tokens ! (k + 1)),
                              con_lowerbound := constvalue (tokens ! (k + 1))\<rparr>))
                | LEQ \<Rightarrow> Inr (k + 2, push_constraint b'
                           (new_Constraint\<lparr>con_expr := expr,
                              con_upperbound := constvalue (tokens ! (k + 1))\<rparr>))
                | GEQ \<Rightarrow> Inr (k + 2, push_constraint b'
                           (new_Constraint\<lparr>con_expr := expr,
                              con_lowerbound := constvalue (tokens ! (k + 1))\<rparr>))
                | _ \<Rightarrow> Inl ParseError)
          else Inl ParseError)"

lemma processconsec_step_advances:
  "processconsec_step miscast tokens i b = Inr (j, b') \<Longrightarrow> i < j"
  unfolding processconsec_step_def
  by (auto split: sum.splits if_splits LpComparisonType.splits dest!: parseexpression_index)

function processconsec_loop ::
  "(ProcessedToken \<Rightarrow> string) \<Rightarrow> ProcessedToken list \<Rightarrow> nat \<Rightarrow> Builder \<Rightarrow> error + Builder" where
  "processconsec_loop miscast tokens i b =
     (if i < length tokens
      then (case processconsec_step miscast tokens i b of
              Inl e \<Rightarrow> Inl e
            | Inr (j, b') \<Rightarrow> processconsec_loop miscast tokens j b')
      else Inr b)"
  by pat_completeness auto
termination
  by (relation "measure (\<lambda>(miscast, tokens, i, b). length tokens - i)")
     (auto dest: processconsec_step_advances)

declare processconsec_loop.simps [simp del]

definition processconsec ::
  "(ProcessedToken \<Rightarrow> string) \<Rightarrow> sections \<Rightarrow> Builder \<Rightarrow> error + Builder" where
  "processconsec miscast sectiontokens b = processconsec_loop miscast (sectiontokens CON) 0 b"

text \<open>One turn of the loop of \<open>Reader::processboundssec\<close>, entered with \<open>i\<close> below the size.\<close>

definition processboundssec_step ::
  "ProcessedToken list \<Rightarrow> nat \<Rightarrow> Builder \<Rightarrow> error + (nat \<times> Builder)" where
  "processboundssec_step tokens i b =
     (if length tokens - i \<ge> 2 \<and> is_VARID (tokens ! i) \<and> tokens ! (i + 1) = FREE
      then Inr (i + 2,
                modify_var (getvarbyname b (varname (tokens ! i))) (varname (tokens ! i))
                  (\<lambda>v. v\<lparr>var_lowerbound := MInf, var_upperbound := PInf\<rparr>))
      else if length tokens - i \<ge> 5 \<and> is_CONST (tokens ! i) \<and> is_COMP (tokens ! (i + 1))
         \<and> is_VARID (tokens ! (i + 2)) \<and> is_COMP (tokens ! (i + 3))
         \<and> is_CONST (tokens ! (i + 4))
      then (if dir (tokens ! (i + 1)) = LEQ \<and> dir (tokens ! (i + 3)) = LEQ
            then Inr (i + 5,
                      modify_var (getvarbyname b (varname (tokens ! (i + 2))))
                        (varname (tokens ! (i + 2)))
                        (\<lambda>v. v\<lparr>var_lowerbound := constvalue (tokens ! i),
                               var_upperbound := constvalue (tokens ! (i + 4))\<rparr>))
            else Inl ParseError)
      else if length tokens - i \<ge> 3 \<and> is_CONST (tokens ! i) \<and> is_COMP (tokens ! (i + 1))
         \<and> is_VARID (tokens ! (i + 2))
      then (case dir (tokens ! (i + 1)) of
              LEQ \<Rightarrow> Inr (i + 3,
                      modify_var (getvarbyname b (varname (tokens ! (i + 2))))
                        (varname (tokens ! (i + 2)))
                        (\<lambda>v. v\<lparr>var_lowerbound := constvalue (tokens ! i)\<rparr>))
            | GEQ \<Rightarrow> Inr (i + 3,
                      modify_var (getvarbyname b (varname (tokens ! (i + 2))))
                        (varname (tokens ! (i + 2)))
                        (\<lambda>v. v\<lparr>var_upperbound := constvalue (tokens ! i)\<rparr>))
            | EQ \<Rightarrow> Inr (i + 3,
                      modify_var (getvarbyname b (varname (tokens ! (i + 2))))
                        (varname (tokens ! (i + 2)))
                        (\<lambda>v. v\<lparr>var_upperbound := constvalue (tokens ! i),
                               var_lowerbound := constvalue (tokens ! i)\<rparr>))
            | _ \<Rightarrow> Inl ParseError)
      else if length tokens - i \<ge> 3 \<and> is_VARID (tokens ! i) \<and> is_COMP (tokens ! (i + 1))
         \<and> is_CONST (tokens ! (i + 2))
      then (case dir (tokens ! (i + 1)) of
              LEQ \<Rightarrow> Inr (i + 3,
                      modify_var (getvarbyname b (varname (tokens ! i))) (varname (tokens ! i))
                        (\<lambda>v. v\<lparr>var_upperbound := constvalue (tokens ! (i + 2))\<rparr>))
            | GEQ \<Rightarrow> Inr (i + 3,
                      modify_var (getvarbyname b (varname (tokens ! i))) (varname (tokens ! i))
                        (\<lambda>v. v\<lparr>var_lowerbound := constvalue (tokens ! (i + 2))\<rparr>))
            | EQ \<Rightarrow> Inr (i + 3,
                      modify_var (getvarbyname b (varname (tokens ! i))) (varname (tokens ! i))
                        (\<lambda>v. v\<lparr>var_upperbound := constvalue (tokens ! (i + 2)),
                               var_lowerbound := constvalue (tokens ! (i + 2))\<rparr>))
            | _ \<Rightarrow> Inl ParseError)
      else Inl ParseError)"

lemma processboundssec_step_advances:
  "processboundssec_step tokens i b = Inr (j, b') \<Longrightarrow> i < j"
  unfolding processboundssec_step_def
  by (auto split: if_splits LpComparisonType.splits)

function processboundssec_loop ::
  "ProcessedToken list \<Rightarrow> nat \<Rightarrow> Builder \<Rightarrow> error + Builder" where
  "processboundssec_loop tokens i b =
     (if i < length tokens
      then (case processboundssec_step tokens i b of
              Inl e \<Rightarrow> Inl e
            | Inr (j, b') \<Rightarrow> processboundssec_loop tokens j b')
      else Inr b)"
  by pat_completeness auto
termination
  by (relation "measure (\<lambda>(tokens, i, b). length tokens - i)")
     (auto dest: processboundssec_step_advances)

declare processboundssec_loop.simps [simp del]

definition processboundssec :: "sections \<Rightarrow> Builder \<Rightarrow> error + Builder" where
  "processboundssec sectiontokens b = processboundssec_loop (sectiontokens BOUNDS) 0 b"

text \<open>
  The three \<open>for\<close> loops over a bucket read \<open>tokens[i]\<close> only, for \<open>i\<close> from 0 up: they
  are recursions over the list.
\<close>

fun processbinsec_loop :: "ProcessedToken list \<Rightarrow> Builder \<Rightarrow> error + Builder" where
  "processbinsec_loop [] b = Inr b"
| "processbinsec_loop (t # ts) b =
     (if is_VARID t
      then processbinsec_loop ts
             (modify_var (getvarbyname b (varname t)) (varname t)
                (\<lambda>v. v\<lparr>var_type := BINARY, var_lowerbound := Fin 0, var_upperbound := Fin 1\<rparr>))
      else Inl ParseError)"

definition processbinsec :: "sections \<Rightarrow> Builder \<Rightarrow> error + Builder" where
  "processbinsec sectiontokens b = processbinsec_loop (sectiontokens BIN) b"

fun processgensec_loop :: "ProcessedToken list \<Rightarrow> Builder \<Rightarrow> error + Builder" where
  "processgensec_loop [] b = Inr b"
| "processgensec_loop (t # ts) b =
     (if is_VARID t
      then processgensec_loop ts
             (modify_var (getvarbyname b (varname t)) (varname t)
                (\<lambda>v. if var_type v = SEMICONTINUOUS then v\<lparr>var_type := SEMIINTEGER\<rparr>
                     else v\<lparr>var_type := GENERAL\<rparr>))
      else Inl ParseError)"

definition processgensec :: "sections \<Rightarrow> Builder \<Rightarrow> error + Builder" where
  "processgensec sectiontokens b = processgensec_loop (sectiontokens GEN) b"

fun processsemisec_loop :: "ProcessedToken list \<Rightarrow> Builder \<Rightarrow> error + Builder" where
  "processsemisec_loop [] b = Inr b"
| "processsemisec_loop (t # ts) b =
     (if is_VARID t
      then processsemisec_loop ts
             (modify_var (getvarbyname b (varname t)) (varname t)
                (\<lambda>v. if var_type v = GENERAL then v\<lparr>var_type := SEMIINTEGER\<rparr>
                     else v\<lparr>var_type := SEMICONTINUOUS\<rparr>))
      else Inl ParseError)"

definition processsemisec :: "sections \<Rightarrow> Builder \<Rightarrow> error + Builder" where
  "processsemisec sectiontokens b = processsemisec_loop (sectiontokens SEMI) b"

text \<open>The inner loop of \<open>Reader::processsossec\<close> over the entries of one set.\<close>

function sosentries_loop ::
  "ProcessedToken list \<Rightarrow> nat \<Rightarrow> (string \<times> lpdouble) list \<Rightarrow> Builder
     \<Rightarrow> nat \<times> (string \<times> lpdouble) list \<times> Builder" where
  "sosentries_loop tokens i entries b =
     (if i < length tokens \<and> length tokens - i \<ge> 2 \<and> is_CONID (tokens ! i)
         \<and> is_CONST (tokens ! (i + 1))
      then sosentries_loop tokens (i + 2)
             (entries @ [(conname (tokens ! i), constvalue (tokens ! (i + 1)))])
             (getvarbyname b (conname (tokens ! i)))
      else (i, entries, b))"
  by pat_completeness auto
termination
  by (relation "measure (\<lambda>(tokens, i, entries, b). length tokens - i)") auto

declare sosentries_loop.simps [simp del]

lemma sosentries_loop_index:
  "sosentries_loop tokens i entries b = (j, entries', b') \<Longrightarrow> i \<le> j"
proof (induction tokens i entries b rule: sosentries_loop.induct)
  case (1 tokens i entries b)
  then show ?case
    by (subst (asm) (2) sosentries_loop.simps) (auto split: if_splits)
qed

text \<open>One turn of the outer loop of \<open>Reader::processsossec\<close>, entered with \<open>i\<close> below the size.\<close>

definition processsossec_step ::
  "ProcessedToken list \<Rightarrow> nat \<Rightarrow> Builder \<Rightarrow> error + (nat \<times> Builder)" where
  "processsossec_step tokens i b =
     (if \<not> is_CONID (tokens ! i) then Inl ParseError
      else if \<not> i + 1 < length tokens then Inl ParseError
      else if \<not> is_SOSTYPE (tokens ! (i + 1)) then Inl ParseError
      else if length (sostype (tokens ! (i + 1))) \<noteq> 2 then Inl ParseError
      else if \<not> (sostype (tokens ! (i + 1)) ! 0 = CHR ''S''
                 \<or> sostype (tokens ! (i + 1)) ! 0 = CHR ''s'') then Inl ParseError
      else if \<not> (sostype (tokens ! (i + 1)) ! 1 = CHR ''1''
                 \<or> sostype (tokens ! (i + 1)) ! 1 = CHR ''2'') then Inl ParseError
      else (case sosentries_loop tokens (i + 2) [] b of
              (j, entries, b') \<Rightarrow>
                Inr (j,
                     b'\<lparr>model := (model b')\<lparr>soss := soss (model b') @
                          [\<lparr>sos_name = conname (tokens ! i),
                            sos_type = of_char (sostype (tokens ! (i + 1)) ! 1) - of_char (CHR ''0''),
                            sos_entries = entries\<rparr>]\<rparr>\<rparr>)))"

lemma processsossec_step_advances:
  "processsossec_step tokens i b = Inr (j, b') \<Longrightarrow> i < j"
  unfolding processsossec_step_def
  by (auto split: if_splits prod.splits dest!: sosentries_loop_index)

function processsossec_loop ::
  "ProcessedToken list \<Rightarrow> nat \<Rightarrow> Builder \<Rightarrow> error + Builder" where
  "processsossec_loop tokens i b =
     (if i < length tokens
      then (case processsossec_step tokens i b of
              Inl e \<Rightarrow> Inl e
            | Inr (j, b') \<Rightarrow> processsossec_loop tokens j b')
      else Inr b)"
  by pat_completeness auto
termination
  by (relation "measure (\<lambda>(tokens, i, b). length tokens - i)")
     (auto dest: processsossec_step_advances)

declare processsossec_loop.simps [simp del]

definition processsossec :: "sections \<Rightarrow> Builder \<Rightarrow> error + Builder" where
  "processsossec sectiontokens b = processsossec_loop (sectiontokens SOS) 0 b"

definition processendsec :: "sections \<Rightarrow> Builder \<Rightarrow> error + Builder" where
  "processendsec sectiontokens b =
     (if sectiontokens END = [] then Inr b else Inl ParseError)"

text \<open>The sequence of calls; a failure ends it.\<close>

definition andthen :: "error + 'a \<Rightarrow> ('a \<Rightarrow> error + 'b) \<Rightarrow> error + 'b" where
  "andthen r f = (case r of Inl e \<Rightarrow> Inl e | Inr x \<Rightarrow> f x)"

definition processsections ::
  "(ProcessedToken \<Rightarrow> string) \<Rightarrow> sections \<Rightarrow> Builder \<Rightarrow> error + Builder" where
  "processsections miscast sectiontokens b =
     andthen (processnonesec sectiontokens b) (\<lambda>b.
     andthen (processobjsec miscast sectiontokens b) (\<lambda>b.
     andthen (processconsec miscast sectiontokens b) (\<lambda>b.
     andthen (processboundssec sectiontokens b) (\<lambda>b.
     andthen (processgensec sectiontokens b) (\<lambda>b.
     andthen (processbinsec sectiontokens b) (\<lambda>b.
     andthen (processsemisec sectiontokens b) (\<lambda>b.
     andthen (processsossec sectiontokens b) (\<lambda>b.
     processendsec sectiontokens b))))))))"

subsection \<open>The section splitter: \<open>Reader::splittokens\<close>\<close>

text \<open>
  The \<open>for\<close> loop reads \<open>processedtokens[i]\<close> only: a recursion over the list, with
  the current section, the buckets and the builder as its state. A bucket never
  written is the empty vector that \<open>sectiontokens[k]\<close> creates.
\<close>

fun splittokens_loop ::
  "ProcessedToken list \<Rightarrow> LpSectionKeyword \<Rightarrow> sections \<Rightarrow> Builder
     \<Rightarrow> error + (sections \<times> Builder)" where
  "splittokens_loop [] currentsection sectiontokens b = Inr (sectiontokens, b)"
| "splittokens_loop (t # ts) currentsection sectiontokens b =
     (if is_SECID t
      then (case (if keyword t = OBJ
                  then (case objsense t of
                          OS_MIN \<Rightarrow> Inr (b\<lparr>model := (model b)\<lparr>sense := SENSE_MIN\<rparr>\<rparr>)
                        | OS_MAX \<Rightarrow> Inr (b\<lparr>model := (model b)\<lparr>sense := SENSE_MAX\<rparr>\<rparr>)
                        | OS_NONE \<Rightarrow> Inl ParseError)
                  else Inr b) of
              Inl e \<Rightarrow> Inl e
            | Inr b' \<Rightarrow>
                if sectiontokens (keyword t) = []
                then splittokens_loop ts (keyword t) sectiontokens b'
                else Inl ParseError)
      else splittokens_loop ts currentsection
             (sectiontokens(currentsection := sectiontokens currentsection @ [t])) b)"

definition splittokens :: "ProcessedToken list \<Rightarrow> Builder \<Rightarrow> error + (sections \<times> Builder)" where
  "splittokens processedtokens b = splittokens_loop processedtokens SEC_NONE (\<lambda>k. []) b"

subsection \<open>\<open>Reader::read\<close>, after \<open>tokenize\<close>\<close>

text \<open>
  The result is the model of the builder together with the variable objects its
  pointers lead to.
\<close>

definition read ::
  "(ProcessedToken \<Rightarrow> string) \<Rightarrow> RawToken list
     \<Rightarrow> error + (Model \<times> (string \<rightharpoonup> Variable))" where
  "read miscast rawtokens =
     andthen (processtokens rawtokens) (\<lambda>processedtokens.
     andthen (splittokens processedtokens new_Builder) (\<lambda>(sectiontokens, b).
     andthen (processsections miscast sectiontokens b) (\<lambda>b.
     Inr (model b, variables b))))"

subsection \<open>Auxiliary notions for the properties\<close>

text \<open>A value for the parameter \<open>miscast\<close> in concrete runs.\<close>

definition no_miscast :: "ProcessedToken \<Rightarrow> string" where
  "no_miscast t = []"

text \<open>No variable identifier and no constraint label carries a section keyword.\<close>

definition nokeywordnames :: "ProcessedToken list \<Rightarrow> bool" where
  "nokeywordnames ts =
     (\<forall>n. VARID n \<in> set ts \<or> CONID n \<in> set ts \<longrightarrow> parsesectionkeyword n = SEC_NONE)"

text \<open>All the strings that \<open>parsesectionkeyword\<close> accepts, up to case.\<close>

definition section_keywords :: "string list" where
  "section_keywords = LP_KEYWORD_MIN @ LP_KEYWORD_MAX @ LP_KEYWORD_ST @ LP_KEYWORD_BOUNDS
     @ LP_KEYWORD_BIN @ LP_KEYWORD_GEN @ LP_KEYWORD_SEMI @ LP_KEYWORD_SOS @ LP_KEYWORD_END"

text \<open>The type and the bounds of the variable of a name in a builder, if it exists.\<close>

definition type_of :: "Builder \<Rightarrow> string \<Rightarrow> VariableType option" where
  "type_of b n = map_option var_type (variables b n)"



text \<open>
  Two invariants of the store of variables: all variables are continuous (up to the
  bounds section), and every binary variable has the bounds 0 and 1 (from the binary
  section on).
\<close>

definition allcontinuous :: "Builder \<Rightarrow> bool" where
  "allcontinuous b = (\<forall>n v. variables b n = Some v \<longrightarrow> var_type v = CONTINUOUS)"

definition binary01 :: "Builder \<Rightarrow> bool" where
  "binary01 b =
     (\<forall>n v. variables b n = Some v \<longrightarrow> var_type v = BINARY \<longrightarrow>
        var_lowerbound v = Fin 0 \<and> var_upperbound v = Fin 1)"

text \<open>The variable of a name in what \<open>read\<close> returned.\<close>

definition var_in_result ::
  "error + (Model \<times> (string \<rightharpoonup> Variable)) \<Rightarrow> string \<Rightarrow> Variable option" where
  "var_in_result r n = (case r of Inl e \<Rightarrow> None | Inr (m, vs) \<Rightarrow> vs n)"

text \<open>
  The bounds of a constraint come from a comparison and a constant that stand side
  by side in the tokens: both bounds the constant for \<open>=\<close>, the upper bound for \<open><=\<close>
  and the lower bound for \<open>>=\<close>, the other bound being infinite.
\<close>

definition constraint_from ::
  "ProcessedToken list \<Rightarrow> Constraint \<Rightarrow> bool" where
  "constraint_from tokens con =
     list_ex (\<lambda>p. p + 1 < length tokens \<and> is_COMP (tokens ! p) \<and> is_CONST (tokens ! (p + 1))
        \<and> (case dir (tokens ! p) of
              EQ \<Rightarrow> con_lowerbound con = constvalue (tokens ! (p + 1))
                     \<and> con_upperbound con = constvalue (tokens ! (p + 1))
            | LEQ \<Rightarrow> con_lowerbound con = MInf
                     \<and> con_upperbound con = constvalue (tokens ! (p + 1))
            | GEQ \<Rightarrow> con_lowerbound con = constvalue (tokens ! (p + 1))
                     \<and> con_upperbound con = PInf
            | _ \<Rightarrow> False))
       [0 ..< length tokens]"

text \<open>
  The quadratic terms as the format describes them, to compare the parser with.
  First the quadratic term at the head of a token sequence, with the number of its
  tokens: constant, variable, caret and the constant 2 are the term with that
  constant and the variable twice; variable, caret and 2 the same with coefficient
  1; constant, variable, asterisk and variable are the term with that constant and
  the two variables; variable, asterisk and variable the same with coefficient 1.
  The coefficient is the constant as it stands in the tokens.
\<close>

definition spec_quadterm :: "ProcessedToken list \<Rightarrow> (QuadTerm \<times> nat) option" where
  "spec_quadterm ts =
     (case ts of
        P_CONST c # VARID v # HAT # P_CONST e # _ \<Rightarrow>
          if e = Fin 2 then Some (\<lparr>qt_coef = c, qt_var1 = v, qt_var2 = v\<rparr>, 4) else None
      | VARID v # HAT # P_CONST e # _ \<Rightarrow>
          if e = Fin 2 then Some (\<lparr>qt_coef = Fin 1, qt_var1 = v, qt_var2 = v\<rparr>, 3) else None
      | P_CONST c # VARID v # ASTERISK # VARID w # _ \<Rightarrow>
          Some (\<lparr>qt_coef = c, qt_var1 = v, qt_var2 = w\<rparr>, 4)
      | VARID v # ASTERISK # VARID w # _ \<Rightarrow>
          Some (\<lparr>qt_coef = Fin 1, qt_var1 = v, qt_var2 = w\<rparr>, 3)
      | _ \<Rightarrow> None)"

lemma spec_quadterm_length:
  "spec_quadterm ts = Some (q, n) \<Longrightarrow> 0 < n \<and> n \<le> length ts"
  unfolding spec_quadterm_def
  by (simp split: list.splits ProcessedToken.splits if_splits)

text \<open>
  The terms of a block, in order, and the tokens that are left where no term begins.
\<close>

function spec_block :: "ProcessedToken list \<Rightarrow> QuadTerm list \<times> ProcessedToken list" where
  "spec_block ts =
     (case spec_quadterm ts of
        None \<Rightarrow> ([], ts)
      | Some (q, n) \<Rightarrow> (case spec_block (drop n ts) of (qs, rest) \<Rightarrow> (q # qs, rest)))"
  by pat_completeness auto
termination
  by (relation "measure length") (auto dest: spec_quadterm_length)

declare spec_block.simps [simp del]

lemma spec_block_length: "spec_block ts = (qs, rest) \<Longrightarrow> length rest \<le> length ts"
proof (induction ts arbitrary: qs rest rule: spec_block.induct)
  case (1 ts)
  show ?case
  proof (cases "spec_quadterm ts")
    case None
    then show ?thesis using "1.prems" by (simp add: spec_block.simps [of ts])
  next
    case (Some a)
    obtain q n where a: "a = (q, n)" by (cases a) auto
    obtain qs' rest' where r: "spec_block (drop n ts) = (qs', rest')"
      by (cases "spec_block (drop n ts)") auto
    have "rest = rest'" using "1.prems" Some a r by (simp add: spec_block.simps [of ts])
    moreover have "length rest' \<le> length (drop n ts)"
      using "1.IH" [OF Some a [symmetric] r] .
    ultimately show ?thesis by simp
  qed
qed

text \<open>
  The quadratic terms of an expression, in order. Constants and variables belong to
  the linear part; an opening bracket starts a block, after whose closing bracket
  the objective has the two tokens \<open>/ 2\<close> and a constraint has nothing; any other
  token ends the expression.
\<close>

function spec_quadterms :: "bool \<Rightarrow> ProcessedToken list \<Rightarrow> QuadTerm list" where
  "spec_quadterms isobj [] = []"
| "spec_quadterms isobj (t # ts) =
     (if is_CONST t \<or> is_VARID t then spec_quadterms isobj ts
      else if t = BRKOP
      then (case spec_block ts of
              (qs, rest) \<Rightarrow>
                (case rest of
                   [] \<Rightarrow> qs
                 | r # rest' \<Rightarrow>
                     if r = BRKCL
                     then qs @ spec_quadterms isobj (if isobj then drop 2 rest' else rest')
                     else qs))
      else [])"
  by pat_completeness auto
termination
  by (relation "measure (\<lambda>(isobj, ts). length ts)") (auto dest!: spec_block_length [OF sym])

declare spec_quadterms.simps [simp del]

text \<open>An expression may begin with a label.\<close>

definition spec_unlabel :: "ProcessedToken list \<Rightarrow> ProcessedToken list" where
  "spec_unlabel ts = (case ts of CONID n # rest \<Rightarrow> rest | _ \<Rightarrow> ts)"

text \<open>Inputs of concrete runs: raw tokens as the lexer gives them, and buckets.\<close>

definition binary_input :: "RawToken list" where
  "binary_input =
     [R_STR ''min'', R_STR ''x'', R_STR ''bounds'', R_STR ''x'', LESS, EQUAL, CONS (Fin 7),
      R_STR ''binary'', R_STR ''x'', R_STR ''end'', FLEND]"

definition general_semi_input :: "RawToken list" where
  "general_semi_input =
     [R_STR ''min'', R_STR ''x'', R_STR ''general'', R_STR ''x'',
      R_STR ''semi'', R_STR ''x'', R_STR ''end'', FLEND]"

definition general_input :: "RawToken list" where
  "general_input =
     [R_STR ''min'', R_STR ''x'', R_STR ''general'', R_STR ''x'', R_STR ''end'', FLEND]"

definition semi_input :: "RawToken list" where
  "semi_input =
     [R_STR ''min'', R_STR ''x'', R_STR ''semi'', R_STR ''x'', R_STR ''end'', FLEND]"

definition leq_tokens :: "ProcessedToken list" where
  "leq_tokens = [CONID ''c'', VARID ''x'', COMP LEQ, P_CONST (Fin 4)]"

definition block_tokens :: "ProcessedToken list" where
  "block_tokens =
     [BRKOP, P_CONST (Fin 3), VARID ''x'', HAT, P_CONST (Fin 2), BRKCL, SLASH, P_CONST (Fin 2)]"

definition con_block_tokens :: "ProcessedToken list" where
  "con_block_tokens =
     [BRKOP, VARID ''x'', ASTERISK, VARID ''y'', BRKCL, COMP LEQ, P_CONST (Fin 4)]"

text \<open>
  The raw tokens of \<open>min [ 2 x ^ 2 ] / 2 st [ x ^ 2 ] <= 4 end\<close>, and of
  \<open>min x st [ x ^ 2 ] / 2 <= 4 end\<close>.
\<close>

definition quad_input :: "RawToken list" where
  "quad_input =
     [R_STR ''min'', R_BRKOP, CONS (Fin 2), R_STR ''x'', R_HAT, CONS (Fin 2), R_BRKCL, R_SLASH,
      CONS (Fin 2), R_STR ''st'', R_BRKOP, R_STR ''x'', R_HAT, CONS (Fin 2), R_BRKCL, LESS, EQUAL,
      CONS (Fin 4), R_STR ''end'', FLEND]"

definition quad_trailer_input :: "RawToken list" where
  "quad_trailer_input =
     [R_STR ''min'', R_STR ''x'', R_STR ''st'', R_BRKOP, R_STR ''x'', R_HAT, CONS (Fin 2),
      R_BRKCL, R_SLASH, CONS (Fin 2), LESS, EQUAL, CONS (Fin 4), R_STR ''end'', FLEND]"

section \<open>Properties\<close>

subsection \<open>Keywords and the classifier\<close>

lemma isstrequalnocase_iff: "isstrequalnocase a b \<longleftrightarrow> map tolower a = map tolower b"
  by (induction a b rule: isstrequalnocase.induct) auto

lemma section_keywords_lower: "map (map tolower) section_keywords = section_keywords"
  by code_simp

lemma tolower_minus: "tolower (CHR ''-'') = CHR ''-''" and tolower_space: "tolower (CHR '' '') = CHR '' ''"
  by code_simp+

lemma iskeyword_iff: "iskeyword s ks \<longleftrightarrow> map tolower s \<in> set (map (map tolower) ks)"
  by (auto simp: iskeyword_def list_ex_iff isstrequalnocase_iff)

lemma parsesectionkeyword_iff:
  "parsesectionkeyword s \<noteq> SEC_NONE \<longleftrightarrow> map tolower s \<in> set section_keywords"
proof -
  have "parsesectionkeyword s \<noteq> SEC_NONE \<longleftrightarrow> map tolower s \<in> set (map (map tolower) section_keywords)"
    unfolding parsesectionkeyword_def parseobjectivesectionkeyword_def iskeyword_iff section_keywords_def
    by auto
  then show ?thesis by (simp only: section_keywords_lower)
qed

lemma section_keywords_set: "set section_keywords = {''minimize'', ''minimum'', ''min'', ''maximize'', ''maximum'', ''max'',
   ''subject to'', ''such that'', ''st'', ''s.t.'', ''bounds'', ''bound'', ''binary'', ''binaries'', ''bin'',
   ''general'', ''generals'', ''gen'', ''semi-continuous'', ''semi'', ''sos'', ''end''}"
  by (simp add: section_keywords_def LP_KEYWORD_MIN_def LP_KEYWORD_MAX_def LP_KEYWORD_ST_def LP_KEYWORD_BOUNDS_def LP_KEYWORD_GEN_def LP_KEYWORD_BIN_def
    LP_KEYWORD_SEMI_def LP_KEYWORD_SOS_def LP_KEYWORD_END_def)

lemma joined_minus:
  assumes "parsesectionkeyword (a @ ''-'' @ s) \<noteq> SEC_NONE"
  shows "parsesectionkeyword s = SEC_NONE"
proof -
  have "map tolower a @ CHR ''-'' # map tolower s \<in> set section_keywords"
    using assms by (simp add: parsesectionkeyword_iff tolower_minus)
  then have "map tolower s = ''continuous''"
    unfolding section_keywords_set by (auto simp: append_eq_Cons_conv)
  then have "map tolower s \<notin> set section_keywords"
    unfolding section_keywords_set by simp
  then show ?thesis using parsesectionkeyword_iff by blast
qed

lemma joined_space:
  assumes "parsesectionkeyword (a @ '' '' @ s) \<noteq> SEC_NONE"
  shows "parsesectionkeyword s = SEC_NONE"
proof -
  have "map tolower a @ CHR '' '' # map tolower s \<in> set section_keywords"
    using assms by (simp add: parsesectionkeyword_iff tolower_space)
  then have "map tolower s = ''to'' \<or> map tolower s = ''that''"
    unfolding section_keywords_set by (auto simp: append_eq_Cons_conv)
  then have "map tolower s \<notin> set section_keywords"
    unfolding section_keywords_set by auto
  then show ?thesis using parsesectionkeyword_iff by blast
qed

text \<open>
  No step of the classifier emits a section header of the base class with the
  keyword of the objective: the joined strings hold \<open>-\<close> or a blank, which no
  objective keyword does. So the splitter reads the sense only from tokens that
  have one.
\<close>

lemma objective_keywords_lower:
  "map (map tolower) (LP_KEYWORD_MIN @ LP_KEYWORD_MAX) = LP_KEYWORD_MIN @ LP_KEYWORD_MAX"
  by code_simp

lemma parseobjectivesectionkeyword_iff:
  "parseobjectivesectionkeyword s \<noteq> OS_NONE
     \<longleftrightarrow> map tolower s \<in> set (LP_KEYWORD_MIN @ LP_KEYWORD_MAX)"
proof -
  have "parseobjectivesectionkeyword s \<noteq> OS_NONE
     \<longleftrightarrow> map tolower s \<in> set (map (map tolower) (LP_KEYWORD_MIN @ LP_KEYWORD_MAX))"
    unfolding parseobjectivesectionkeyword_def iskeyword_iff by auto
  then show ?thesis by (simp only: objective_keywords_lower)
qed

lemma joined_not_objective:
  "parsesectionkeyword (a @ ''-'' @ s) \<noteq> OBJ" "parsesectionkeyword (a @ '' '' @ s) \<noteq> OBJ"
proof -
  have "parseobjectivesectionkeyword (a @ ''-'' @ s) = OS_NONE"
    using parseobjectivesectionkeyword_iff [of "a @ ''-'' @ s"]
    by (auto simp: tolower_minus LP_KEYWORD_MIN_def LP_KEYWORD_MAX_def append_eq_Cons_conv)
  then show "parsesectionkeyword (a @ ''-'' @ s) \<noteq> OBJ"
    by (simp add: parsesectionkeyword_def)
  have "parseobjectivesectionkeyword (a @ '' '' @ s) = OS_NONE"
    using parseobjectivesectionkeyword_iff [of "a @ '' '' @ s"]
    by (auto simp: tolower_space LP_KEYWORD_MIN_def LP_KEYWORD_MAX_def append_eq_Cons_conv)
  then show "parsesectionkeyword (a @ '' '' @ s) \<noteq> OBJ"
    by (simp add: parsesectionkeyword_def)
qed

lemma processtokens_step_objective_sense:
  assumes "processtokens_step rawtokens i = Inr (out, j)"
  shows "SECID OBJ OS_NONE \<notin> set out"
proof -
  have single: "\<And>s. parsesectionkeyword s = OBJ \<Longrightarrow> parseobjectivesectionkeyword s \<noteq> OS_NONE"
    by (simp add: parsesectionkeyword_def split: if_splits)
  show ?thesis
    using assms single
      joined_not_objective [of "strvalue (rawtokens ! i)" "strvalue (rawtokens ! (i + 2))"]
      joined_not_objective [of "strvalue (rawtokens ! i)" "strvalue (rawtokens ! (i + 1))"]
    unfolding processtokens_step_def
    by (cases "rawtokens ! i"; simp split: if_splits; force)
qed

lemma processtokens_step_names:
  "processtokens_step rawtokens i = Inr (out, j) \<Longrightarrow>
     (VARID n \<in> set out \<or> CONID n \<in> set out) \<Longrightarrow> parsesectionkeyword n = SEC_NONE"
  by (cases "rawtokens ! i"; simp add: processtokens_step_def split: if_splits; force)

lemma processtokens_loop_names:
  "processtokens_loop rawtokens i acc = Inr processedtokens \<Longrightarrow> nokeywordnames acc \<Longrightarrow>
   nokeywordnames processedtokens"
proof (induction rawtokens i acc rule: processtokens_loop.induct)
  case (1 rawtokens i acc)
  note unfold = processtokens_loop.simps [of rawtokens i acc]
  show ?case
  proof (cases "i < length rawtokens")
    case False
    with "1.prems" unfold show ?thesis by simp
  next
    case True
    show ?thesis
    proof (cases "processtokens_step rawtokens i")
      case (Inl e)
      with True "1.prems" unfold show ?thesis by simp
    next
      case (Inr r)
      obtain out j where r: "r = (out, j)" by (cases r) auto
      have run: "processtokens_loop rawtokens j (acc @ out) = Inr processedtokens"
        using True Inr r "1.prems"(1) unfold by simp
      have "nokeywordnames (acc @ out)"
        using "1.prems"(2) processtokens_step_names [of rawtokens i out j] Inr r
        unfolding nokeywordnames_def by auto
      then show ?thesis
        using "1.IH" [OF True Inr r [symmetric] run] by blast
    qed
  qed
qed

lemma step_keyword:
  assumes "i < length rawtokens" "is_STR (rawtokens ! i)"
    "parsesectionkeyword (strvalue (rawtokens ! i)) \<noteq> SEC_NONE"
  shows "\<exists>k s j. processtokens_step rawtokens i = Inr ([SECID k s], j)"
  using assms unfolding processtokens_step_def by simp

lemma step_keyword_colon:
  assumes "i + 1 < length rawtokens" "is_STR (rawtokens ! i)"
    "parsesectionkeyword (strvalue (rawtokens ! i)) \<noteq> SEC_NONE"
    "rawtokens ! (i + 1) = COLON"
  shows "\<exists>k s. processtokens_step rawtokens i = Inr ([SECID k s], i + 1)"
  using assms unfolding processtokens_step_def by simp

lemma step_colon:
  assumes "rawtokens ! i = COLON"
  shows "processtokens_step rawtokens i = Inl ParseError"
  using assms unfolding processtokens_step_def by simp

lemma loop_keyword_colon:
  assumes "i + 1 < length rawtokens" "is_STR (rawtokens ! i)"
    "parsesectionkeyword (strvalue (rawtokens ! i)) \<noteq> SEC_NONE"
    "rawtokens ! (i + 1) = COLON"
  shows "processtokens_loop rawtokens i acc = Inl ParseError"
proof -
  obtain k s where "processtokens_step rawtokens i = Inr ([SECID k s], i + 1)"
    using step_keyword_colon [OF assms] by blast
  then have "processtokens_loop rawtokens i acc = processtokens_loop rawtokens (i + 1) (acc @ [SECID k s])"
    using assms(1) by (subst processtokens_loop.simps) simp
  also have "\<dots> = Inl ParseError"
    using assms(1) step_colon [OF assms(4)] by (subst processtokens_loop.simps) simp
  finally show ?thesis .
qed

lemma processtokens_step_skips:
  assumes "processtokens_step rawtokens i = Inr (out, j)" "i < p" "p < j" "is_STR (rawtokens ! p)"
  shows "parsesectionkeyword (strvalue (rawtokens ! p)) = SEC_NONE"
proof -
  have "p = i + 1 \<or> p = i + 2"
    using assms(1-3) unfolding processtokens_step_def by (auto split: if_splits)
  then show ?thesis
  proof
    assume p: "p = i + 1"
    show ?thesis
      using assms(1,3,4) joined_space [of "strvalue (rawtokens ! i)" "strvalue (rawtokens ! (i + 1))"]
      unfolding p processtokens_step_def
      by (cases "rawtokens ! i"; simp split: if_splits; auto simp: is_STR_def is_CONS_def)
  next
    assume p: "p = i + 2"
    show ?thesis
      using assms(1,3,4) joined_minus [of "strvalue (rawtokens ! i)" "strvalue (rawtokens ! (i + 2))"]
      unfolding p processtokens_step_def
      by (cases "rawtokens ! i"; simp split: if_splits; auto simp: is_STR_def is_CONS_def)
  qed
qed

lemma processtokens_loop_keyword_colon:
  "i \<le> p \<Longrightarrow> p + 1 < length rawtokens \<Longrightarrow> is_STR (rawtokens ! p) \<Longrightarrow>
   parsesectionkeyword (strvalue (rawtokens ! p)) \<noteq> SEC_NONE \<Longrightarrow>
   rawtokens ! (p + 1) = COLON \<Longrightarrow>
   processtokens_loop rawtokens i acc = Inl ParseError"
proof (induction rawtokens i acc rule: processtokens_loop.induct)
  case (1 rawtokens i acc)
  note unfold = processtokens_loop.simps [of rawtokens i acc]
  have lt: "i < length rawtokens" using "1.prems" by simp
  show ?case
  proof (cases "i = p")
    case True
    then show ?thesis using loop_keyword_colon "1.prems" by blast
  next
    case False
    then have ip: "i < p" using "1.prems"(1) by simp
    show ?thesis
    proof (cases "processtokens_step rawtokens i")
      case (Inl e)
      then show ?thesis using lt unfold by (cases e) simp
    next
      case (Inr r)
      obtain out j where r: "r = (out, j)" by (cases r) auto
      have "j \<le> p"
        using processtokens_step_skips [of rawtokens i out j p] Inr r ip "1.prems"(3,4)
        by (cases "p < j") auto
      then have "processtokens_loop rawtokens j (acc @ out) = Inl ParseError"
        using "1.IH" [OF lt Inr r [symmetric]] "1.prems" by blast
      then show ?thesis using lt Inr r unfold by simp
    qed
  qed
qed

lemma read_processtokens_fails:
  "processtokens rawtokens = Inl e \<Longrightarrow> read miscast rawtokens = Inl e"
  by (simp add: read_def andthen_def)

text \<open>
  C10. Section-keyword recognition comes before every other classification of a
  string token. A string that matches a section keyword, whatever follows it,
  is classified as a section header; no token list that the classifier returns
  holds such a word as a variable identifier or as a constraint label; and where
  such a word is followed by a colon, as the label \<open>st:\<close> is, the colon is left
  over and the classifier, hence \<open>read\<close>, fails, wherever in the input this
  stands. The listed words are recognised without regard to case.
\<close>

theorem section_keyword_precedence:
  "(i < length rawtokens \<and> is_STR (rawtokens ! i)
      \<and> parsesectionkeyword (strvalue (rawtokens ! i)) \<noteq> SEC_NONE
     \<longrightarrow> (\<exists>k s j. processtokens_step rawtokens i = Inr ([SECID k s], j)))
   \<and> (processtokens rawtokens = Inr processedtokens \<and> parsesectionkeyword n \<noteq> SEC_NONE
     \<longrightarrow> VARID n \<notin> set processedtokens \<and> CONID n \<notin> set processedtokens)
   \<and> (p + 1 < length rawtokens' \<and> is_STR (rawtokens' ! p)
      \<and> parsesectionkeyword (strvalue (rawtokens' ! p)) \<noteq> SEC_NONE
      \<and> rawtokens' ! (p + 1) = COLON
     \<longrightarrow> processtokens rawtokens' = Inl ParseError \<and> read miscast rawtokens' = Inl ParseError)
   \<and> list_all (\<lambda>w. parsesectionkeyword w \<noteq> SEC_NONE)
       [''min'', ''max'', ''st'', ''s.t.'', ''bounds'', ''bound'', ''gen'', ''general'', ''bin'',
        ''binary'', ''semi'', ''sos'', ''end'', ''MIN'', ''Subject To'', ''Semi-Continuous'']"
proof (intro conjI impI)
  assume "i < length rawtokens \<and> is_STR (rawtokens ! i)
      \<and> parsesectionkeyword (strvalue (rawtokens ! i)) \<noteq> SEC_NONE"
  then show "\<exists>k s j. processtokens_step rawtokens i = Inr ([SECID k s], j)"
    using step_keyword by blast
next
  assume a: "processtokens rawtokens = Inr processedtokens \<and> parsesectionkeyword n \<noteq> SEC_NONE"
  have "nokeywordnames []" by (simp add: nokeywordnames_def)
  then have "nokeywordnames processedtokens"
    using a processtokens_loop_names unfolding processtokens_def by blast
  then show "VARID n \<notin> set processedtokens" and "CONID n \<notin> set processedtokens"
    using a unfolding nokeywordnames_def by blast+
next
  assume a: "p + 1 < length rawtokens' \<and> is_STR (rawtokens' ! p)
      \<and> parsesectionkeyword (strvalue (rawtokens' ! p)) \<noteq> SEC_NONE
      \<and> rawtokens' ! (p + 1) = COLON"
  then show f: "processtokens rawtokens' = Inl ParseError"
    unfolding processtokens_def using processtokens_loop_keyword_colon [of 0 p rawtokens' "[]"] by simp
  then show "read miscast rawtokens' = Inl ParseError"
    by (rule read_processtokens_fails)
next
  show "list_all (\<lambda>w. parsesectionkeyword w \<noteq> SEC_NONE)
       [''min'', ''max'', ''st'', ''s.t.'', ''bounds'', ''bound'', ''gen'', ''general'', ''bin'',
        ''binary'', ''semi'', ''sos'', ''end'', ''MIN'', ''Subject To'', ''Semi-Continuous'']"
    by code_simp
qed

lemma kw_end: "parsesectionkeyword ''end'' \<noteq> SEC_NONE" by code_simp
lemma kw_st: "parsesectionkeyword ''st'' \<noteq> SEC_NONE" by code_simp
lemma pt_w: "processtokens [R_STR ''x'', R_STR ''end'', FLEND] = Inr [VARID ''x'', SECID END OS_NONE]" by code_simp

theorem section_keyword_precedence_witness:
  "(\<exists>k s j. processtokens_step [R_STR ''x'', R_STR ''end'', FLEND] 1 = Inr ([SECID k s], j))
   \<and> VARID ''end'' \<notin> set [VARID ''x'', SECID END OS_NONE]
   \<and> read no_miscast [R_STR ''st'', COLON, R_STR ''x'', FLEND] = Inl ParseError"
  using section_keyword_precedence [where i = 1 and rawtokens = "[R_STR ''x'', R_STR ''end'', FLEND]"
     and processedtokens = "[VARID ''x'', SECID END OS_NONE]" and n = "''end''"
     and p = 0 and rawtokens' = "[R_STR ''st'', COLON, R_STR ''x'', FLEND]" and miscast = no_miscast]
     kw_end kw_st pt_w
  by simp

text \<open>
  C9. Implicit signs act as coefficients: a \<open>+\<close> followed by neither a number nor
  an opening bracket becomes the constant 1, a \<open>-\<close> not followed by a number
  becomes the constant -1, and \<open>x - y + 3\<close> is classified and then parsed into
  the linear terms (1, x), (-1, y) in this order, offset 3 and no quadratic term.
\<close>

theorem implicit_signs_are_coefficients:
  "(i < length rawtokens \<and> rawtokens ! i = PLUS
      \<and> \<not> (i + 1 < length rawtokens
            \<and> (is_CONS (rawtokens ! (i + 1)) \<or> rawtokens ! (i + 1) = R_BRKOP))
     \<longrightarrow> processtokens_step rawtokens i = Inr ([P_CONST (Fin 1)], i + 1))
   \<and> (j < length rawtokens' \<and> rawtokens' ! j = MINUS
      \<and> \<not> (j + 1 < length rawtokens' \<and> is_CONS (rawtokens' ! (j + 1)))
     \<longrightarrow> processtokens_step rawtokens' j = Inr ([P_CONST (Fin (- 1))], j + 1))
   \<and> processtokens [R_STR ''x'', MINUS, R_STR ''y'', PLUS, CONS (Fin 3), FLEND]
       = Inr [VARID ''x'', P_CONST (Fin (- 1)), VARID ''y'', P_CONST (Fin 3)]
   \<and> parseexpression miscast [VARID ''x'', P_CONST (Fin (- 1)), VARID ''y'', P_CONST (Fin 3)]
         new_Expression 0 new_Builder isobj
       = Inr (\<lparr>linterms = [\<lparr>lt_coef = Fin 1, lt_var = ''x''\<rparr>, \<lparr>lt_coef = Fin (- 1), lt_var = ''y''\<rparr>],
               quadterms = [], offset = Fin 3, name = []\<rparr>,
              4, getvarbyname (getvarbyname new_Builder ''x'') ''y'')"
proof (intro conjI impI)
  assume "i < length rawtokens \<and> rawtokens ! i = PLUS
      \<and> \<not> (i + 1 < length rawtokens
            \<and> (is_CONS (rawtokens ! (i + 1)) \<or> rawtokens ! (i + 1) = R_BRKOP))"
  then show "processtokens_step rawtokens i = Inr ([P_CONST (Fin 1)], i + 1)"
    unfolding processtokens_step_def by auto
next
  assume "j < length rawtokens' \<and> rawtokens' ! j = MINUS
      \<and> \<not> (j + 1 < length rawtokens' \<and> is_CONS (rawtokens' ! (j + 1)))"
  then show "processtokens_step rawtokens' j = Inr ([P_CONST (Fin (- 1))], j + 1)"
    unfolding processtokens_step_def by auto
next
  show "processtokens [R_STR ''x'', MINUS, R_STR ''y'', PLUS, CONS (Fin 3), FLEND]
       = Inr [VARID ''x'', P_CONST (Fin (- 1)), VARID ''y'', P_CONST (Fin 3)]"
    by code_simp
next
  show "parseexpression miscast [VARID ''x'', P_CONST (Fin (- 1)), VARID ''y'', P_CONST (Fin 3)]
         new_Expression 0 new_Builder isobj
       = Inr (\<lparr>linterms = [\<lparr>lt_coef = Fin 1, lt_var = ''x''\<rparr>, \<lparr>lt_coef = Fin (- 1), lt_var = ''y''\<rparr>],
               quadterms = [], offset = Fin 3, name = []\<rparr>,
              4, getvarbyname (getvarbyname new_Builder ''x'') ''y'')"
    by (simp add: parseexpression_def parseexpression_loop.simps parseexpression_step_def
          add_linterm_def new_Expression_def)
qed

theorem implicit_signs_are_coefficients_witness:
  "processtokens_step [PLUS, R_STR ''x''] 0 = Inr ([P_CONST (Fin 1)], 1)
   \<and> processtokens_step [MINUS, R_STR ''y''] 0 = Inr ([P_CONST (Fin (- 1))], 1)"
  using implicit_signs_are_coefficients [where i = 0 and rawtokens = "[PLUS, R_STR ''x'']"
    and j = 0 and rawtokens' = "[MINUS, R_STR ''y'']"]
  by simp

subsection \<open>Evaluation of concrete runs\<close>

lemmas run_defs =
  read_def andthen_def processtokens_def splittokens_def processsections_def
  processnonesec_def processobjsec_def processconsec_def processboundssec_def
  processgensec_def processbinsec_def processsemisec_def processsossec_def processendsec_def
  parseexpression_def parseexpression_step_def quadterm_step_def closebracket_def
  processconsec_step_def processboundssec_step_def processsossec_step_def
  read_conid_name_def getvarbyname_def modify_var_def add_linterm_def add_quadterm_def
  push_constraint_def new_Builder_def new_Expression_def new_Constraint_def new_Variable_def
  no_miscast_def

lemmas loop_simps =
  processtokens_loop.simps parseexpression_loop.simps quadloop.simps processconsec_loop.simps
  processboundssec_loop.simps processsossec_loop.simps sosentries_loop.simps

lemma pt_dup: "processtokens [R_STR ''min'', R_STR ''x'', R_STR ''bounds'', R_STR ''bounds'', R_STR ''end'', FLEND]
   = Inr [SECID OBJ OS_MIN, VARID ''x'', SECID BOUNDS OS_NONE, SECID BOUNDS OS_NONE, SECID END OS_NONE]"
  by code_simp

text \<open>
  C2. A section header that recurs is to be a parse error. The splitter tests
  that the bucket of the section is empty, so it does not see the recurrence of
  a section that has received no token yet: two \<open>bounds\<close> headers in a row pass
  the splitter, and \<open>read\<close> returns a model for \<open>min x bounds bounds end\<close>.
\<close>

theorem duplicate_header_of_empty_section_accepted:
  "splittokens [SECID BOUNDS OS_NONE, SECID BOUNDS OS_NONE] new_Builder = Inr (\<lambda>k. [], new_Builder)
   \<and> read no_miscast
        [R_STR ''min'', R_STR ''x'', R_STR ''bounds'', R_STR ''bounds'', R_STR ''end'', FLEND]
      = Inr (\<lparr>sense = SENSE_MIN,
               objective = \<lparr>linterms = [\<lparr>lt_coef = Fin 1, lt_var = ''x''\<rparr>], quadterms = [],
                            offset = Fin 0, name = []\<rparr>,
               constraints = [], soss = [], model_variables = [''x'']\<rparr>,
              [''x'' \<mapsto> new_Variable ''x''])"
  apply (rule conjI)
   apply (simp add: splittokens_def)
  apply (simp add: read_def andthen_def pt_dup)
  apply (simp add: run_defs loop_simps)
  done

lemma pt_two:
  "processtokens [R_STR ''min'', R_STR ''x'', R_STR ''st'', R_STR ''c1'', COLON, R_STR ''x'',
      LESS, EQUAL, CONS (Fin 1), R_STR ''y'', LESS, EQUAL, CONS (Fin 2), R_STR ''end'', FLEND]
   = Inr [SECID OBJ OS_MIN, VARID ''x'', SECID CON OS_NONE, CONID ''c1'', VARID ''x'', COMP LEQ,
          P_CONST (Fin 1), VARID ''y'', COMP LEQ, P_CONST (Fin 2), SECID END OS_NONE]"
  by code_simp

lemma read_two:
  "read miscast [R_STR ''min'', R_STR ''x'', R_STR ''st'', R_STR ''c1'', COLON, R_STR ''x'',
      LESS, EQUAL, CONS (Fin 1), R_STR ''y'', LESS, EQUAL, CONS (Fin 2), R_STR ''end'', FLEND]
   = Inr (\<lparr>sense = SENSE_MIN,
            objective = \<lparr>linterms = [\<lparr>lt_coef = Fin 1, lt_var = ''x''\<rparr>], quadterms = [],
                         offset = Fin 0, name = []\<rparr>,
            constraints =
              [\<lparr>con_lowerbound = MInf, con_upperbound = Fin 1,
                 con_expr = \<lparr>linterms = [\<lparr>lt_coef = Fin 1, lt_var = ''x''\<rparr>], quadterms = [],
                              offset = Fin 0, name = ''c1''\<rparr>\<rparr>,
               \<lparr>con_lowerbound = MInf, con_upperbound = Fin 2,
                 con_expr = \<lparr>linterms = [], quadterms = [], offset = Fin 0,
                              name = miscast (VARID ''y'')\<rparr>\<rparr>],
            soss = [], model_variables = [''x'']\<rparr>,
           [''x'' \<mapsto> new_Variable ''x''])"
  apply (simp add: read_def andthen_def pt_two)
  apply (simp add: run_defs loop_simps)
  done

lemma pt_late_label:
  "processtokens [R_STR ''min'', R_STR ''x'', R_STR ''st'', R_STR ''x'', LESS, EQUAL, CONS (Fin 1),
      R_STR ''c2'', COLON, R_STR ''y'', LESS, EQUAL, CONS (Fin 2), R_STR ''end'', FLEND]
   = Inr [SECID OBJ OS_MIN, VARID ''x'', SECID CON OS_NONE, VARID ''x'', COMP LEQ,
          P_CONST (Fin 1), CONID ''c2'', VARID ''y'', COMP LEQ, P_CONST (Fin 2), SECID END OS_NONE]"
  by code_simp

lemma read_late_label:
  "read miscast [R_STR ''min'', R_STR ''x'', R_STR ''st'', R_STR ''x'', LESS, EQUAL, CONS (Fin 1),
      R_STR ''c2'', COLON, R_STR ''y'', LESS, EQUAL, CONS (Fin 2), R_STR ''end'', FLEND]
   = Inl ParseError"
  apply (simp add: read_def andthen_def pt_late_label)
  apply (simp add: run_defs loop_simps)
  done

text \<open>
  C1. The expression parser is to take a leading token as the name exactly when the
  token at the current index is a constraint label. Its test reads the first token
  of the section instead. Called at index 4 of \<open>c1: x <= 1  y <= 2\<close>, where the
  variable \<open>y\<close> stands, it takes that token as the name and returns at index 5;
  called at index 3 of \<open>x <= 1  c2: y <= 2\<close>, where the label \<open>c2\<close> stands, it takes
  no name and returns at index 3. So \<open>read\<close> returns for the first text a second
  constraint without terms, and fails on the second.
\<close>

theorem parseexpression_tests_first_token:
  "parseexpression miscast
     [CONID ''c1'', VARID ''x'', COMP LEQ, P_CONST (Fin 1), VARID ''y'', COMP LEQ, P_CONST (Fin 2)]
     new_Expression 4 b False
   = Inr (new_Expression\<lparr>name := miscast (VARID ''y'')\<rparr>, 5, b)
   \<and> parseexpression miscast
     [VARID ''x'', COMP LEQ, P_CONST (Fin 1), CONID ''c2'', VARID ''y'', COMP LEQ, P_CONST (Fin 2)]
     new_Expression 3 b False
   = Inr (new_Expression, 3, b)
   \<and> read miscast [R_STR ''min'', R_STR ''x'', R_STR ''st'', R_STR ''c1'', COLON, R_STR ''x'',
      LESS, EQUAL, CONS (Fin 1), R_STR ''y'', LESS, EQUAL, CONS (Fin 2), R_STR ''end'', FLEND]
   = Inr (\<lparr>sense = SENSE_MIN,
            objective = \<lparr>linterms = [\<lparr>lt_coef = Fin 1, lt_var = ''x''\<rparr>], quadterms = [],
                         offset = Fin 0, name = []\<rparr>,
            constraints =
              [\<lparr>con_lowerbound = MInf, con_upperbound = Fin 1,
                 con_expr = \<lparr>linterms = [\<lparr>lt_coef = Fin 1, lt_var = ''x''\<rparr>], quadterms = [],
                              offset = Fin 0, name = ''c1''\<rparr>\<rparr>,
               \<lparr>con_lowerbound = MInf, con_upperbound = Fin 2,
                 con_expr = \<lparr>linterms = [], quadterms = [], offset = Fin 0,
                              name = miscast (VARID ''y'')\<rparr>\<rparr>],
            soss = [], model_variables = [''x'']\<rparr>,
           [''x'' \<mapsto> new_Variable ''x''])
   \<and> read miscast [R_STR ''min'', R_STR ''x'', R_STR ''st'', R_STR ''x'', LESS, EQUAL, CONS (Fin 1),
      R_STR ''c2'', COLON, R_STR ''y'', LESS, EQUAL, CONS (Fin 2), R_STR ''end'', FLEND]
   = Inl ParseError"
  using read_two [of miscast] read_late_label [of miscast]
  by (simp add: parseexpression_def parseexpression_loop.simps parseexpression_step_def
        read_conid_name_def)

lemma pt_minus: "processtokens [R_STR ''min'', R_STR ''x'', MINUS, R_BRKOP, R_STR ''x'', R_HAT, CONS (Fin 2), R_BRKCL, R_SLASH, CONS (Fin 2), R_STR ''end'', FLEND]
  = Inr [SECID OBJ OS_MIN, VARID ''x'', P_CONST (Fin (- 1)), BRKOP, VARID ''x'', HAT, P_CONST (Fin 2), BRKCL, SLASH, P_CONST (Fin 2), SECID END OS_NONE]"
  by code_simp

lemma read_minus: "read miscast [R_STR ''min'', R_STR ''x'', MINUS, R_BRKOP, R_STR ''x'', R_HAT, CONS (Fin 2), R_BRKCL, R_SLASH, CONS (Fin 2), R_STR ''end'', FLEND]
  = Inr (\<lparr>sense = SENSE_MIN,
               objective = \<lparr>linterms = [\<lparr>lt_coef = Fin 1, lt_var = ''x''\<rparr>],
                   quadterms = [\<lparr>qt_coef = Fin 1, qt_var1 = ''x'', qt_var2 = ''x''\<rparr>],
                            offset = Fin (- 1), name = []\<rparr>,
               constraints = [], soss = [], model_variables = [''x'']\<rparr>,
              [''x'' \<mapsto> new_Variable ''x''])"
  apply (simp add: read_def andthen_def pt_minus)
  apply (simp add: run_defs loop_simps)
  done

text \<open>
  C3, as stated: every input in which a \<open>-\<close> stands immediately before \<open>[\<close> fails
  with a parse error. It does not: \<open>read\<close> returns a model for
  \<open>min x - [ x ^ 2 ] / 2 end\<close>.
\<close>

theorem minus_before_bracket_counterexample:
  "read no_miscast [R_STR ''min'', R_STR ''x'', MINUS, R_BRKOP, R_STR ''x'', R_HAT, CONS (Fin 2),
      R_BRKCL, R_SLASH, CONS (Fin 2), R_STR ''end'', FLEND] \<noteq> Inl ParseError"
  by (simp add: read_minus)

text \<open>
  C3, amended. The classifier rewrites a \<open>+\<close> immediately followed by \<open>[\<close> into the
  opening bracket alone. A \<open>-\<close> immediately followed by \<open>[\<close> is not rejected: the
  classifier turns the \<open>-\<close> into the constant -1 and the bracket into an opening
  bracket, and the expression parser takes a constant that an opening bracket
  follows as the offset of the expression.
\<close>

theorem sign_before_bracket:
  "(i + 1 < length rawtokens \<and> rawtokens ! i = PLUS \<and> rawtokens ! (i + 1) = R_BRKOP
     \<longrightarrow> processtokens_step rawtokens i = Inr ([BRKOP], i + 2))
   \<and> (j + 1 < length rawtokens' \<and> rawtokens' ! j = MINUS \<and> rawtokens' ! (j + 1) = R_BRKOP
     \<longrightarrow> processtokens_step rawtokens' j = Inr ([P_CONST (Fin (- 1))], j + 1)
       \<and> processtokens_step rawtokens' (j + 1) = Inr ([BRKOP], j + 2))
   \<and> (k + 1 < length tokens \<and> is_CONST (tokens ! k) \<and> tokens ! (k + 1) = BRKOP
     \<longrightarrow> parseexpression_step tokens expr k b isobj
           = Inr (Some (expr\<lparr>offset := constvalue (tokens ! k)\<rparr>, k + 1, b)))"
  unfolding processtokens_step_def parseexpression_step_def by auto

theorem sign_before_bracket_witness:
  "processtokens_step [PLUS, R_BRKOP] 0 = Inr ([BRKOP], 2)
   \<and> processtokens_step [MINUS, R_BRKOP] 0 = Inr ([P_CONST (Fin (- 1))], 1)
   \<and> processtokens_step [MINUS, R_BRKOP] 1 = Inr ([BRKOP], 2)
   \<and> parseexpression_step [P_CONST (Fin (- 1)), BRKOP] new_Expression 0 new_Builder True
           = Inr (Some (new_Expression\<lparr>offset := Fin (- 1)\<rparr>, 1, new_Builder))"
  using sign_before_bracket [where i = 0 and rawtokens = "[PLUS, R_BRKOP]"
     and j = 0 and rawtokens' = "[MINUS, R_BRKOP]" and k = 0 and tokens = "[P_CONST (Fin (- 1)), BRKOP]"
     and expr = new_Expression and b = new_Builder and isobj = True]
  by simp

subsection \<open>Invariants of the loops\<close>

lemma error_is_ParseError: "(e :: error) = ParseError"
  by (cases e) simp

lemma quadloop_invariant:
  assumes "quadloop tokens expr i b = Inr (expr', j, b')"
    and "I expr i b"
    and "\<And>e k c e1 k1 c1. I e k c \<Longrightarrow> k < length tokens \<Longrightarrow> tokens ! k \<noteq> BRKCL \<Longrightarrow>
           quadterm_step tokens e k c = Inr (Some (e1, k1, c1)) \<Longrightarrow> I e1 k1 c1"
  shows "I expr' j b'"
  using assms
proof (induction tokens expr i b rule: quadloop.induct)
  case (1 tokens expr i b)
  note unfold = quadloop.simps [of tokens expr i b]
  show ?case
  proof (cases "i < length tokens \<and> tokens ! i \<noteq> BRKCL")
    case False
    with "1.prems" unfold show ?thesis by auto
  next
    case True
    show ?thesis
    proof (cases "quadterm_step tokens expr i b")
      case (Inl e)
      with True "1.prems" unfold show ?thesis by simp
    next
      case (Inr r)
      show ?thesis
      proof (cases r)
        case None
        with True Inr "1.prems" unfold show ?thesis by simp
      next
        case (Some s)
        obtain e1 j1 b1 where s: "s = (e1, j1, b1)" by (cases s) auto
        have run: "quadloop tokens e1 j1 b1 = Inr (expr', j, b')"
          using True Inr Some s "1.prems" unfold by simp
        have "I e1 j1 b1"
          using "1.prems"(3) [of expr i b e1 j1 b1] "1.prems"(2) True Inr Some s by blast
        then show ?thesis
          using "1.IH" [OF True Inr Some s [symmetric] refl run] "1.prems"(3) by blast
      qed
    qed
  qed
qed

lemma parseexpression_loop_invariant:
  assumes "parseexpression_loop tokens expr i b isobj = Inr (expr', j, b')"
    and "I expr i b"
    and "\<And>e k c e1 k1 c1. I e k c \<Longrightarrow> k < length tokens \<Longrightarrow>
           parseexpression_step tokens e k c isobj = Inr (Some (e1, k1, c1)) \<Longrightarrow> I e1 k1 c1"
  shows "I expr' j b'"
  using assms
proof (induction tokens expr i b isobj rule: parseexpression_loop.induct)
  case (1 tokens expr i b isobj)
  note unfold = parseexpression_loop.simps [of tokens expr i b isobj]
  show ?case
  proof (cases "i < length tokens")
    case False
    with "1.prems" unfold show ?thesis by auto
  next
    case True
    show ?thesis
    proof (cases "parseexpression_step tokens expr i b isobj")
      case (Inl e)
      with True "1.prems" unfold show ?thesis by simp
    next
      case (Inr r)
      show ?thesis
      proof (cases r)
        case None
        with True Inr "1.prems" unfold show ?thesis by simp
      next
        case (Some s)
        obtain e1 j1 b1 where s: "s = (e1, j1, b1)" by (cases s) auto
        have run: "parseexpression_loop tokens e1 j1 b1 isobj = Inr (expr', j, b')"
          using True Inr Some s "1.prems" unfold by simp
        have "I e1 j1 b1"
          using "1.prems"(3) [of expr i b e1 j1 b1] "1.prems"(2) True Inr Some s by blast
        then show ?thesis
          using "1.IH" [OF True Inr Some s [symmetric] refl run] "1.prems"(3) by blast
      qed
    qed
  qed
qed

lemma processconsec_loop_invariant:
  assumes "processconsec_loop miscast tokens i b = Inr b'"
    and "I i b"
    and "\<And>k c k1 c1. I k c \<Longrightarrow> k < length tokens \<Longrightarrow>
           processconsec_step miscast tokens k c = Inr (k1, c1) \<Longrightarrow> I k1 c1"
  shows "\<exists>j. I j b' \<and> \<not> j < length tokens"
  using assms
proof (induction miscast tokens i b rule: processconsec_loop.induct)
  case (1 miscast tokens i b)
  note unfold = processconsec_loop.simps [of miscast tokens i b]
  show ?case
  proof (cases "i < length tokens")
    case False
    with "1.prems" unfold show ?thesis by auto
  next
    case True
    show ?thesis
    proof (cases "processconsec_step miscast tokens i b")
      case (Inl e)
      with True "1.prems" unfold show ?thesis by simp
    next
      case (Inr r)
      obtain j1 b1 where r: "r = (j1, b1)" by (cases r) auto
      have run: "processconsec_loop miscast tokens j1 b1 = Inr b'"
        using True Inr r "1.prems" unfold by simp
      have "I j1 b1"
        using "1.prems"(3) [of i b j1 b1] "1.prems"(2) True Inr r by blast
      then show ?thesis
        using "1.IH" [OF True Inr r [symmetric] run] "1.prems"(3) by blast
    qed
  qed
qed

lemma processboundssec_loop_invariant:
  assumes "processboundssec_loop tokens i b = Inr b'"
    and "I i b"
    and "\<And>k c k1 c1. I k c \<Longrightarrow> k < length tokens \<Longrightarrow>
           processboundssec_step tokens k c = Inr (k1, c1) \<Longrightarrow> I k1 c1"
  shows "\<exists>j. I j b' \<and> \<not> j < length tokens"
  using assms
proof (induction tokens i b rule: processboundssec_loop.induct)
  case (1 tokens i b)
  note unfold = processboundssec_loop.simps [of tokens i b]
  show ?case
  proof (cases "i < length tokens")
    case False
    with "1.prems" unfold show ?thesis by auto
  next
    case True
    show ?thesis
    proof (cases "processboundssec_step tokens i b")
      case (Inl e)
      with True "1.prems" unfold show ?thesis by simp
    next
      case (Inr r)
      obtain j1 b1 where r: "r = (j1, b1)" by (cases r) auto
      have run: "processboundssec_loop tokens j1 b1 = Inr b'"
        using True Inr r "1.prems" unfold by simp
      have "I j1 b1"
        using "1.prems"(3) [of i b j1 b1] "1.prems"(2) True Inr r by blast
      then show ?thesis
        using "1.IH" [OF True Inr r [symmetric] run] "1.prems"(3) by blast
    qed
  qed
qed

lemma processsossec_loop_invariant:
  assumes "processsossec_loop tokens i b = Inr b'"
    and "I i b"
    and "\<And>k c k1 c1. I k c \<Longrightarrow> k < length tokens \<Longrightarrow>
           processsossec_step tokens k c = Inr (k1, c1) \<Longrightarrow> I k1 c1"
  shows "\<exists>j. I j b' \<and> \<not> j < length tokens"
  using assms
proof (induction tokens i b rule: processsossec_loop.induct)
  case (1 tokens i b)
  note unfold = processsossec_loop.simps [of tokens i b]
  show ?case
  proof (cases "i < length tokens")
    case False
    with "1.prems" unfold show ?thesis by auto
  next
    case True
    show ?thesis
    proof (cases "processsossec_step tokens i b")
      case (Inl e)
      with True "1.prems" unfold show ?thesis by simp
    next
      case (Inr r)
      obtain j1 b1 where r: "r = (j1, b1)" by (cases r) auto
      have run: "processsossec_loop tokens j1 b1 = Inr b'"
        using True Inr r "1.prems" unfold by simp
      have "I j1 b1"
        using "1.prems"(3) [of i b j1 b1] "1.prems"(2) True Inr r by blast
      then show ?thesis
        using "1.IH" [OF True Inr r [symmetric] run] "1.prems"(3) by blast
    qed
  qed
qed

lemma sosentries_loop_invariant:
  assumes "sosentries_loop tokens i entries b = (j, entries', b')"
    and "I b"
    and "\<And>c n. I c \<Longrightarrow> I (getvarbyname c n)"
  shows "I b'"
  using assms
proof (induction tokens i entries b rule: sosentries_loop.induct)
  case (1 tokens i entries b)
  note unfold = sosentries_loop.simps [of tokens i entries b]
  show ?case
  proof (cases "i < length tokens \<and> length tokens - i \<ge> 2 \<and> is_CONID (tokens ! i)
         \<and> is_CONST (tokens ! (i + 1))")
    case False
    with "1.prems" unfold show ?thesis by auto
  next
    case True
    have run: "sosentries_loop tokens (i + 2)
             (entries @ [(conname (tokens ! i), constvalue (tokens ! (i + 1)))])
             (getvarbyname b (conname (tokens ! i))) = (j, entries', b')"
      using True "1.prems"(1) unfold by simp
    show ?thesis
      using "1.IH" [OF True run] "1.prems"(2,3) by blast
  qed
qed

subsection \<open>What the section processors keep of the builder\<close>

lemma quadterm_step_builder:
  assumes "quadterm_step tokens e k c = Inr (Some (e1, k1, c1))" and "P c"
    and "\<And>c n. P c \<Longrightarrow> P (getvarbyname c n)"
  shows "P c1"
  using assms unfolding quadterm_step_def by (auto split: if_splits)

lemma quadloop_builder:
  assumes "quadloop tokens expr i b = Inr (expr', j, b')" and "P b"
    and "\<And>c n. P c \<Longrightarrow> P (getvarbyname c n)"
  shows "P b'"
  using quadloop_invariant [where I = "\<lambda>e k c. P c", OF assms(1,2)]
    quadterm_step_builder [where P = P] assms(3) by blast

lemma parseexpression_step_builder:
  assumes "parseexpression_step tokens e k c isobj = Inr (Some (e1, k1, c1))" and "P c"
    and "\<And>c n. P c \<Longrightarrow> P (getvarbyname c n)"
  shows "P c1"
proof (cases "length tokens - k \<ge> 2 \<and> tokens ! k = BRKOP")
  case False
  then show ?thesis
    using assms unfolding parseexpression_step_def by (auto split: if_splits)
next
  case True
  then obtain ex j where "quadloop tokens e (k + 1) c = Inr (ex, j, c1)"
    using assms(1) unfolding parseexpression_step_def
    by (auto split: if_splits sum.splits)
  then show ?thesis
    using quadloop_builder [where P = P] assms(2,3) by blast
qed

lemma parseexpression_loop_builder:
  assumes "parseexpression_loop tokens expr i b isobj = Inr (expr', j, b')" and "P b"
    and "\<And>c n. P c \<Longrightarrow> P (getvarbyname c n)"
  shows "P b'"
  using parseexpression_loop_invariant [where I = "\<lambda>e k c. P c", OF assms(1,2)]
    parseexpression_step_builder [where P = P] assms(3) by blast

lemma parseexpression_builder:
  assumes "parseexpression miscast tokens expr i b isobj = Inr (expr', j, b')" and "P b"
    and "\<And>c n. P c \<Longrightarrow> P (getvarbyname c n)"
  shows "P b'"
  using assms(1) parseexpression_loop_builder [where P = P, OF _ assms(2,3)]
  unfolding parseexpression_def by (auto split: if_splits)

lemma processobjsec_builder:
  assumes "processobjsec miscast sec b = Inr b'" and "P b"
    and "\<And>c n. P c \<Longrightarrow> P (getvarbyname c n)"
    and "\<And>c m. P c \<Longrightarrow> P (c\<lparr>model := m\<rparr>)"
  shows "P b'"
  using assms(1) parseexpression_builder [where P = P, OF _ assms(2,3)] assms(4)
  unfolding processobjsec_def by (auto split: sum.splits if_splits)

lemma processconsec_step_builder:
  assumes "processconsec_step miscast tokens k c = Inr (k1, c1)" and "P c"
    and "\<And>c n. P c \<Longrightarrow> P (getvarbyname c n)"
    and "\<And>c m. P c \<Longrightarrow> P (c\<lparr>model := m\<rparr>)"
  shows "P c1"
  using assms(1) parseexpression_builder [where P = P, OF _ assms(2,3)] assms(4)
  unfolding processconsec_step_def push_constraint_def
  by (auto split: sum.splits if_splits LpComparisonType.splits)

lemma processconsec_builder:
  assumes "processconsec miscast sec b = Inr b'" and "P b"
    and "\<And>c n. P c \<Longrightarrow> P (getvarbyname c n)"
    and "\<And>c m. P c \<Longrightarrow> P (c\<lparr>model := m\<rparr>)"
  shows "P b'"
  using processconsec_loop_invariant [where I = "\<lambda>k c. P c", OF assms(1) [unfolded processconsec_def] assms(2)]
    processconsec_step_builder [where P = P] assms(3,4) by blast

lemma processboundssec_step_builder:
  assumes "processboundssec_step tokens k c = Inr (k1, c1)" and "P c"
    and "\<And>c n. P c \<Longrightarrow> P (getvarbyname c n)"
    and "\<And>c n lo up. P c \<Longrightarrow>
           P (modify_var c n (\<lambda>v. v\<lparr>var_lowerbound := lo v, var_upperbound := up v\<rparr>))"
  shows "P c1"
proof -
  have m1: "\<And>c n x. P c \<Longrightarrow> P (modify_var c n (\<lambda>v. v\<lparr>var_lowerbound := x\<rparr>))"
    using assms(4) [where lo = "\<lambda>v. _" and up = var_upperbound] by simp
  have m2: "\<And>c n x. P c \<Longrightarrow> P (modify_var c n (\<lambda>v. v\<lparr>var_upperbound := x\<rparr>))"
    using assms(4) [where up = "\<lambda>v. _" and lo = var_lowerbound] by simp
  have m3: "\<And>c n x y. P c \<Longrightarrow> P (modify_var c n (\<lambda>v. v\<lparr>var_lowerbound := x, var_upperbound := y\<rparr>))"
    using assms(4) [where up = "\<lambda>v. _" and lo = "\<lambda>v. _"] by simp
  have sw: "\<And>x y. (\<lambda>v::Variable. v\<lparr>var_upperbound := y, var_lowerbound := x\<rparr>)
                  = (\<lambda>v. v\<lparr>var_lowerbound := x, var_upperbound := y\<rparr>)"
    by (rule ext) simp
  have m4: "\<And>c n x y. P c \<Longrightarrow> P (modify_var c n (\<lambda>v. v\<lparr>var_upperbound := y, var_lowerbound := x\<rparr>))"
    using m3 by (simp only: sw)
  show ?thesis
    using assms(1,2,3) m1 m2 m3 m4 unfolding processboundssec_step_def
    by (auto split: if_splits LpComparisonType.splits)
qed

lemma processboundssec_builder:
  assumes "processboundssec sec b = Inr b'" and "P b"
    and "\<And>c n. P c \<Longrightarrow> P (getvarbyname c n)"
    and "\<And>c n lo up. P c \<Longrightarrow>
           P (modify_var c n (\<lambda>v. v\<lparr>var_lowerbound := lo v, var_upperbound := up v\<rparr>))"
  shows "P b'"
  using processboundssec_loop_invariant [where I = "\<lambda>k c. P c",
      OF assms(1) [unfolded processboundssec_def] assms(2)]
    processboundssec_step_builder [where P = P] assms(3,4) by blast

lemma processsossec_step_builder:
  assumes "processsossec_step tokens k c = Inr (k1, c1)" and "P c"
    and "\<And>c n. P c \<Longrightarrow> P (getvarbyname c n)"
    and "\<And>c m. P c \<Longrightarrow> P (c\<lparr>model := m\<rparr>)"
  shows "P c1"
  using assms(1) sosentries_loop_invariant [where I = P, OF _ assms(2,3)] assms(4)
  unfolding processsossec_step_def
  by (auto split: if_splits prod.splits)

lemma processsossec_builder:
  assumes "processsossec sec b = Inr b'" and "P b"
    and "\<And>c n. P c \<Longrightarrow> P (getvarbyname c n)"
    and "\<And>c m. P c \<Longrightarrow> P (c\<lparr>model := m\<rparr>)"
  shows "P b'"
  using processsossec_loop_invariant [where I = "\<lambda>k c. P c",
      OF assms(1) [unfolded processsossec_def] assms(2)]
    processsossec_step_builder [where P = P] assms(3,4) by blast

lemma allcontinuous_getvarbyname: "allcontinuous c \<Longrightarrow> allcontinuous (getvarbyname c n)"
  by (auto simp: allcontinuous_def getvarbyname_def new_Variable_def)

lemma allcontinuous_model: "allcontinuous c \<Longrightarrow> allcontinuous (c\<lparr>model := m\<rparr>)"
  by (simp add: allcontinuous_def)

lemma allcontinuous_bounds:
  "allcontinuous c \<Longrightarrow>
   allcontinuous (modify_var c n (\<lambda>v. v\<lparr>var_lowerbound := lo v, var_upperbound := up v\<rparr>))"
  by (auto simp: allcontinuous_def modify_var_def split: option.splits)

lemma binary01_getvarbyname: "binary01 c \<Longrightarrow> binary01 (getvarbyname c n)"
  by (auto simp: binary01_def getvarbyname_def new_Variable_def)

lemma binary01_model: "binary01 c \<Longrightarrow> binary01 (c\<lparr>model := m\<rparr>)"
  by (simp add: binary01_def)

lemma type_of_getvarbyname:
  "type_of (getvarbyname c m) n
     = (if n = m \<and> variables c n = None then Some CONTINUOUS else type_of c n)"
  by (auto simp: type_of_def getvarbyname_def new_Variable_def)

lemma variables_getvarbyname_same: "variables (getvarbyname c m) m \<noteq> None"
  by (simp add: getvarbyname_def)

lemma type_of_modify_var:
  "type_of (modify_var c m f) n
     = (if n = m then map_option (\<lambda>v. var_type (f v)) (variables c n) else type_of c n)"
  by (simp add: type_of_def modify_var_def split: option.splits)

lemma type_of_model: "type_of (c\<lparr>model := m\<rparr>) n = type_of c n"
  by (simp add: type_of_def)

lemma allcontinuous_type_of: "allcontinuous b \<Longrightarrow> type_of b n = None \<or> type_of b n = Some CONTINUOUS"
  by (auto simp: allcontinuous_def type_of_def)

lemma processgensec_loop_type:
  "processgensec_loop ts b = Inr b' \<Longrightarrow> \<forall>m. type_of b m \<noteq> Some SEMICONTINUOUS \<Longrightarrow>
   type_of b' n = (if VARID n \<in> set ts then Some GENERAL else type_of b n)"
proof (induction ts arbitrary: b)
  case Nil
  then show ?case by simp
next
  case (Cons t ts)
  from Cons.prems(1) obtain m where t: "t = VARID m"
    by (cases t) (auto split: if_splits)
  let ?b1 = "modify_var (getvarbyname b m) m
                (\<lambda>v. if var_type v = SEMICONTINUOUS then v\<lparr>var_type := SEMIINTEGER\<rparr>
                     else v\<lparr>var_type := GENERAL\<rparr>)"
  have run: "processgensec_loop ts ?b1 = Inr b'"
    using Cons.prems(1) t by simp
  have ty: "\<And>k. type_of ?b1 k = (if k = m then Some GENERAL else type_of b k)"
    using Cons.prems(2)
    by (auto simp: type_of_def modify_var_def getvarbyname_def new_Variable_def split: option.splits)
  then have "\<forall>k. type_of ?b1 k \<noteq> Some SEMICONTINUOUS"
    using Cons.prems(2) by simp
  from Cons.IH [OF run this] show ?case
    using ty t by auto
qed

lemma processbinsec_loop_type:
  "processbinsec_loop ts b = Inr b' \<Longrightarrow>
   type_of b' n = (if VARID n \<in> set ts then Some BINARY else type_of b n)"
proof (induction ts arbitrary: b)
  case Nil
  then show ?case by simp
next
  case (Cons t ts)
  from Cons.prems(1) obtain m where t: "t = VARID m"
    by (cases t) (auto split: if_splits)
  let ?b1 = "modify_var (getvarbyname b m) m
                (\<lambda>v. v\<lparr>var_type := BINARY, var_lowerbound := Fin 0, var_upperbound := Fin 1\<rparr>)"
  have run: "processbinsec_loop ts ?b1 = Inr b'"
    using Cons.prems(1) t by simp
  have ty: "\<And>k. type_of ?b1 k = (if k = m then Some BINARY else type_of b k)"
    by (auto simp: type_of_def modify_var_def getvarbyname_def new_Variable_def split: option.splits)
  from Cons.IH [OF run] show ?case
    using ty t by auto
qed

lemma processbinsec_loop_binary01:
  "processbinsec_loop ts b = Inr b' \<Longrightarrow> binary01 b \<Longrightarrow> binary01 b'"
proof (induction ts arbitrary: b)
  case Nil
  then show ?case by simp
next
  case (Cons t ts)
  from Cons.prems(1) obtain m where t: "t = VARID m"
    by (cases t) (auto split: if_splits)
  let ?b1 = "modify_var (getvarbyname b m) m
                (\<lambda>v. v\<lparr>var_type := BINARY, var_lowerbound := Fin 0, var_upperbound := Fin 1\<rparr>)"
  have run: "processbinsec_loop ts ?b1 = Inr b'"
    using Cons.prems(1) t by simp
  have "binary01 ?b1"
    using Cons.prems(2)
    by (auto simp: binary01_def modify_var_def getvarbyname_def new_Variable_def split: option.splits if_splits)
  from Cons.IH [OF run this] show ?case .
qed

lemma processsemisec_loop_binary01:
  "processsemisec_loop ts b = Inr b' \<Longrightarrow> binary01 b \<Longrightarrow> binary01 b'"
proof (induction ts arbitrary: b)
  case Nil
  then show ?case by simp
next
  case (Cons t ts)
  from Cons.prems(1) obtain m where t: "t = VARID m"
    by (cases t) (auto split: if_splits)
  let ?b1 = "modify_var (getvarbyname b m) m
                (\<lambda>v. if var_type v = GENERAL then v\<lparr>var_type := SEMIINTEGER\<rparr>
                     else v\<lparr>var_type := SEMICONTINUOUS\<rparr>)"
  have run: "processsemisec_loop ts ?b1 = Inr b'"
    using Cons.prems(1) t by simp
  have "binary01 ?b1"
    using Cons.prems(2)
    by (auto simp: binary01_def modify_var_def getvarbyname_def new_Variable_def split: option.splits if_splits)
  from Cons.IH [OF run this] show ?case .
qed

lemma processsemisec_loop_type:
  "processsemisec_loop ts b = Inr b' \<Longrightarrow>
   type_of b' n =
     (if VARID n \<notin> set ts then type_of b n
      else if type_of b n = Some GENERAL \<and> count_list ts (VARID n) = 1 then Some SEMIINTEGER
      else Some SEMICONTINUOUS)"
proof (induction ts arbitrary: b)
  case Nil
  then show ?case by simp
next
  case (Cons t ts)
  from Cons.prems(1) obtain m where t: "t = VARID m"
    by (cases t) (auto split: if_splits)
  let ?b1 = "modify_var (getvarbyname b m) m
                (\<lambda>v. if var_type v = GENERAL then v\<lparr>var_type := SEMIINTEGER\<rparr>
                     else v\<lparr>var_type := SEMICONTINUOUS\<rparr>)"
  have run: "processsemisec_loop ts ?b1 = Inr b'"
    using Cons.prems(1) t by simp
  have ty: "\<And>k. type_of ?b1 k
      = (if k = m then (if type_of b k = Some GENERAL then Some SEMIINTEGER else Some SEMICONTINUOUS)
         else type_of b k)"
    by (auto simp: type_of_def modify_var_def getvarbyname_def new_Variable_def split: option.splits)
  have cnt: "VARID n \<notin> set ts \<Longrightarrow> count_list ts (VARID n) = 0"
    by (simp add: count_list_0_iff)
  have cnt2: "VARID n \<in> set ts \<Longrightarrow> count_list ts (VARID n) > 0"
    using count_list_0_iff [of ts "VARID n"] by auto
  from Cons.IH [OF run, unfolded ty] show ?case
    using t cnt cnt2 by (auto split: if_splits)
qed

lemma processsections_Inr:
  assumes "processsections miscast sec b = Inr b'"
  shows "\<exists>b1 b2 b3 b4 b5 b6.
     processobjsec miscast sec b = Inr b1 \<and> processconsec miscast sec b1 = Inr b2
     \<and> processboundssec sec b2 = Inr b3 \<and> processgensec sec b3 = Inr b4
     \<and> processbinsec sec b4 = Inr b5 \<and> processsemisec sec b5 = Inr b6
     \<and> processsossec sec b6 = Inr b'"
  using assms
  unfolding processsections_def andthen_def processnonesec_def processendsec_def
  by (auto split: sum.splits if_splits)

lemma splittokens_loop_variables:
  "splittokens_loop ts cur sec b = Inr (sec', b') \<Longrightarrow> variables b' = variables b"
proof (induction ts arbitrary: cur sec b)
  case Nil
  then show ?case by simp
next
  case (Cons t ts)
  show ?case
  proof (cases "is_SECID t")
    case False
    then show ?thesis using Cons by simp
  next
    case True
    then show ?thesis
      using Cons.prems Cons.IH
      by (auto split: if_splits sum.splits LpObjectiveSectionKeywordType.splits)
  qed
qed

lemma read_Inr:
  assumes "read miscast rawtokens = Inr (m, vs)"
  shows "\<exists>pt sec b0 b'. processtokens rawtokens = Inr pt
     \<and> splittokens pt new_Builder = Inr (sec, b0) \<and> variables b0 = Map.empty
     \<and> processsections miscast sec b0 = Inr b' \<and> m = model b' \<and> vs = variables b'"
proof -
  from assms obtain pt sec b0 b' where
    1: "processtokens rawtokens = Inr pt" and 2: "splittokens pt new_Builder = Inr (sec, b0)"
    and 3: "processsections miscast sec b0 = Inr b'" and 4: "m = model b'" "vs = variables b'"
    unfolding read_def andthen_def by (auto split: sum.splits prod.splits)
  have "variables b0 = Map.empty"
    using splittokens_loop_variables 2 unfolding splittokens_def new_Builder_def by fastforce
  then show ?thesis using 1 2 3 4 by blast
qed

lemma sections_allcontinuous:
  assumes "processobjsec miscast sec b = Inr b1" "processconsec miscast sec b1 = Inr b2"
    "processboundssec sec b2 = Inr b3" "allcontinuous b"
  shows "allcontinuous b3"
proof -
  have "allcontinuous b1"
    using processobjsec_builder [where P = allcontinuous, OF assms(1,4)]
      allcontinuous_getvarbyname allcontinuous_model by blast
  then have "allcontinuous b2"
    using processconsec_builder [where P = allcontinuous, OF assms(2)]
      allcontinuous_getvarbyname allcontinuous_model by blast
  then show ?thesis
    using processboundssec_builder [where P = allcontinuous, OF assms(3)]
      allcontinuous_getvarbyname allcontinuous_bounds by blast
qed

lemma type_of_Some_getvarbyname:
  "type_of c n = Some t \<Longrightarrow> type_of (getvarbyname c m) n = Some t"
  by (auto simp: type_of_def getvarbyname_def)

lemma processsossec_type:
  assumes "processsossec sec b = Inr b'" "type_of b n = Some t"
  shows "type_of b' n = Some t"
  by (rule processsossec_builder [where P = "\<lambda>c. type_of c n = Some t", OF assms])
     (simp_all add: type_of_Some_getvarbyname type_of_model)

text \<open>
  C8. In every model that \<open>read\<close> returns, every variable of type binary has lower
  bound 0 and upper bound 1.
\<close>

theorem binary_variables_bounds:
  "read miscast rawtokens = Inr (m, vs) \<and> vs n = Some v \<and> var_type v = BINARY
     \<longrightarrow> var_lowerbound v = Fin 0 \<and> var_upperbound v = Fin 1"
proof
  assume a: "read miscast rawtokens = Inr (m, vs) \<and> vs n = Some v \<and> var_type v = BINARY"
  then obtain pt sec b0 b' where
    s: "splittokens pt new_Builder = Inr (sec, b0)" and e: "variables b0 = Map.empty"
    and p: "processsections miscast sec b0 = Inr b'" and v: "vs = variables b'"
    using read_Inr by blast
  from processsections_Inr [OF p] obtain b1 b2 b3 b4 b5 b6 where
    st: "processobjsec miscast sec b0 = Inr b1" "processconsec miscast sec b1 = Inr b2"
      "processboundssec sec b2 = Inr b3" "processgensec sec b3 = Inr b4"
      "processbinsec sec b4 = Inr b5" "processsemisec sec b5 = Inr b6"
      "processsossec sec b6 = Inr b'"
    by blast
  have "allcontinuous b0" using e by (simp add: allcontinuous_def)
  then have c3: "allcontinuous b3" using sections_allcontinuous st(1-3) by blast
  then have ns: "\<forall>k. type_of b3 k \<noteq> Some SEMICONTINUOUS"
    using allcontinuous_type_of [of b3] by (metis VariableType.distinct(5) option.distinct(1) option.inject)
  have "\<And>k. type_of b4 k \<noteq> Some BINARY"
    using processgensec_loop_type [OF st(4) [unfolded processgensec_def] ns]
      allcontinuous_type_of [OF c3] by (metis VariableType.distinct(1,9) option.distinct(1) option.inject)
  then have "binary01 b4"
    by (auto simp: binary01_def type_of_def)
  then have "binary01 b5"
    using processbinsec_loop_binary01 st(5) unfolding processbinsec_def by blast
  then have "binary01 b6"
    using processsemisec_loop_binary01 st(6) unfolding processsemisec_def by blast
  then have "binary01 b'"
    using processsossec_builder [where P = binary01, OF st(7)]
      binary01_getvarbyname binary01_model by blast
  then show "var_lowerbound v = Fin 0 \<and> var_upperbound v = Fin 1"
    using a v unfolding binary01_def by blast
qed

text \<open>
  C7, amended. For every model that \<open>read\<close> returns: a variable that stands in the
  general section, not in the binary section, and exactly once in the semi section
  ends semi-integer; a variable that stands in the general section and in neither
  the binary nor the semi section ends general-integer; a variable that stands in
  the semi section and not in the general section ends semi-continuous.
\<close>

theorem general_semi_types:
  "processtokens rawtokens = Inr pt \<and> splittokens pt new_Builder = Inr (sec, bs)
     \<and> read miscast rawtokens = Inr (m, vs)
   \<longrightarrow> (VARID n \<in> set (sec GEN) \<and> VARID n \<notin> set (sec BIN)
          \<and> count_list (sec SEMI) (VARID n) = 1
        \<longrightarrow> map_option var_type (vs n) = Some SEMIINTEGER)
     \<and> (VARID n' \<in> set (sec GEN) \<and> VARID n' \<notin> set (sec BIN) \<and> VARID n' \<notin> set (sec SEMI)
        \<longrightarrow> map_option var_type (vs n') = Some GENERAL)
     \<and> (VARID n'' \<in> set (sec SEMI) \<and> VARID n'' \<notin> set (sec GEN)
        \<longrightarrow> map_option var_type (vs n'') = Some SEMICONTINUOUS)"
proof
  assume a: "processtokens rawtokens = Inr pt \<and> splittokens pt new_Builder = Inr (sec, bs)
     \<and> read miscast rawtokens = Inr (m, vs)"
  then have e: "variables bs = Map.empty"
    using splittokens_loop_variables unfolding splittokens_def new_Builder_def by fastforce
  from a obtain b' where p: "processsections miscast sec bs = Inr b'" and v: "vs = variables b'"
    unfolding read_def andthen_def by (auto split: sum.splits)
  from processsections_Inr [OF p] obtain b1 b2 b3 b4 b5 b6 where
    st: "processobjsec miscast sec bs = Inr b1" "processconsec miscast sec b1 = Inr b2"
      "processboundssec sec b2 = Inr b3" "processgensec sec b3 = Inr b4"
      "processbinsec sec b4 = Inr b5" "processsemisec sec b5 = Inr b6"
      "processsossec sec b6 = Inr b'"
    by blast
  have "allcontinuous bs" using e by (simp add: allcontinuous_def)
  then have c3: "allcontinuous b3" using sections_allcontinuous st(1-3) by blast
  then have ns: "\<forall>k. type_of b3 k \<noteq> Some SEMICONTINUOUS"
    using allcontinuous_type_of [of b3] by (metis VariableType.distinct(5) option.distinct(1) option.inject)
  have t3: "\<And>k. type_of b3 k \<noteq> Some GENERAL"
    using allcontinuous_type_of [OF c3] by (metis VariableType.distinct(3) option.distinct(1) option.inject)
  note t4 = processgensec_loop_type [OF st(4) [unfolded processgensec_def] ns]
  note t5 = processbinsec_loop_type [OF st(5) [unfolded processbinsec_def]]
  note t6 = processsemisec_loop_type [OF st(6) [unfolded processsemisec_def]]
  have fin: "\<And>k t. type_of b6 k = Some t \<Longrightarrow> map_option var_type (vs k) = Some t"
    using processsossec_type [OF st(7)] v unfolding type_of_def by simp
  show "(VARID n \<in> set (sec GEN) \<and> VARID n \<notin> set (sec BIN)
          \<and> count_list (sec SEMI) (VARID n) = 1
        \<longrightarrow> map_option var_type (vs n) = Some SEMIINTEGER)
     \<and> (VARID n' \<in> set (sec GEN) \<and> VARID n' \<notin> set (sec BIN) \<and> VARID n' \<notin> set (sec SEMI)
        \<longrightarrow> map_option var_type (vs n') = Some GENERAL)
     \<and> (VARID n'' \<in> set (sec SEMI) \<and> VARID n'' \<notin> set (sec GEN)
        \<longrightarrow> map_option var_type (vs n'') = Some SEMICONTINUOUS)"
  proof (intro conjI impI)
    assume h: "VARID n \<in> set (sec GEN) \<and> VARID n \<notin> set (sec BIN)
          \<and> count_list (sec SEMI) (VARID n) = 1"
    then have "VARID n \<in> set (sec SEMI)"
      using count_list_0_iff [of "sec SEMI" "VARID n"] by auto
    then have "type_of b6 n = Some SEMIINTEGER"
      using h t4 [of n] t5 [of n] t6 [of n] by simp
    then show "map_option var_type (vs n) = Some SEMIINTEGER" by (rule fin)
  next
    assume h: "VARID n' \<in> set (sec GEN) \<and> VARID n' \<notin> set (sec BIN) \<and> VARID n' \<notin> set (sec SEMI)"
    then have "type_of b6 n' = Some GENERAL"
      using t4 [of n'] t5 [of n'] t6 [of n'] by simp
    then show "map_option var_type (vs n') = Some GENERAL" by (rule fin)
  next
    assume h: "VARID n'' \<in> set (sec SEMI) \<and> VARID n'' \<notin> set (sec GEN)"
    have "type_of b5 n'' \<noteq> Some GENERAL"
      using h t4 [of n''] t5 [of n''] t3 [of n''] by (simp split: if_splits)
    then have "type_of b6 n'' = Some SEMICONTINUOUS"
      using h t6 [of n''] by simp
    then show "map_option var_type (vs n'') = Some SEMICONTINUOUS" by (rule fin)
  qed
qed

lemma pt_binary: "processtokens binary_input = Inr [SECID OBJ OS_MIN, VARID ''x'', SECID BOUNDS OS_NONE,
    VARID ''x'', COMP LEQ, P_CONST (Fin 7), SECID BIN OS_NONE, VARID ''x'', SECID END OS_NONE]"
  by code_simp

lemma binary_input_run:
  "var_in_result (read no_miscast binary_input) ''x''
     = Some \<lparr>var_type = BINARY, var_lowerbound = Fin 0, var_upperbound = Fin 1, var_name = ''x''\<rparr>"
  apply (simp add: read_def andthen_def pt_binary)
  apply (simp add: run_defs loop_simps var_in_result_def)
  done

theorem binary_variables_bounds_witness:
  "map_option var_type (var_in_result (read no_miscast binary_input) ''x'') = Some BINARY
   \<and> map_option var_lowerbound (var_in_result (read no_miscast binary_input) ''x'') = Some (Fin 0)
   \<and> map_option var_upperbound (var_in_result (read no_miscast binary_input) ''x'') = Some (Fin 1)"
proof -
  obtain m vs v where r: "read no_miscast binary_input = Inr (m, vs)"
    and v: "vs ''x'' = Some v" "var_type v = BINARY"
    using binary_input_run
    by (cases "read no_miscast binary_input") (auto simp: var_in_result_def)
  show ?thesis
    using binary_variables_bounds [of no_miscast binary_input m vs "''x''" v] r v
    by (simp add: var_in_result_def)
qed

lemma pt_gs: "processtokens general_semi_input = Inr [SECID OBJ OS_MIN, VARID ''x'', SECID GEN OS_NONE, VARID ''x'',
    SECID SEMI OS_NONE, VARID ''x'', SECID END OS_NONE]"
  by code_simp

lemma pt_g: "processtokens general_input = Inr [SECID OBJ OS_MIN, VARID ''x'', SECID GEN OS_NONE, VARID ''x'',
    SECID END OS_NONE]"
  by code_simp

lemma pt_s: "processtokens semi_input = Inr [SECID OBJ OS_MIN, VARID ''x'', SECID SEMI OS_NONE, VARID ''x'',
    SECID END OS_NONE]"
  by code_simp

lemma split_gs: "splittokens [SECID OBJ OS_MIN, VARID ''x'', SECID GEN OS_NONE, VARID ''x'',
    SECID SEMI OS_NONE, VARID ''x'', SECID END OS_NONE] new_Builder
   = Inr ((\<lambda>k. [])(OBJ := [VARID ''x''], GEN := [VARID ''x''], SEMI := [VARID ''x'']), new_Builder)"
  by (simp add: splittokens_def new_Builder_def)

lemma split_g: "splittokens [SECID OBJ OS_MIN, VARID ''x'', SECID GEN OS_NONE, VARID ''x'',
    SECID END OS_NONE] new_Builder
   = Inr ((\<lambda>k. [])(OBJ := [VARID ''x''], GEN := [VARID ''x'']), new_Builder)"
  by (simp add: splittokens_def new_Builder_def)

lemma split_s: "splittokens [SECID OBJ OS_MIN, VARID ''x'', SECID SEMI OS_NONE, VARID ''x'',
    SECID END OS_NONE] new_Builder
   = Inr ((\<lambda>k. [])(OBJ := [VARID ''x''], SEMI := [VARID ''x'']), new_Builder)"
  by (simp add: splittokens_def new_Builder_def)

lemma run_gs: "isl (read no_miscast general_semi_input) = False"
  apply (simp add: read_def andthen_def pt_gs)
  apply (simp add: run_defs loop_simps)
  done

lemma run_g: "isl (read no_miscast general_input) = False"
  apply (simp add: read_def andthen_def pt_g)
  apply (simp add: run_defs loop_simps)
  done

lemma run_s: "isl (read no_miscast semi_input) = False"
  apply (simp add: read_def andthen_def pt_s)
  apply (simp add: run_defs loop_simps)
  done

theorem general_semi_types_witness:
  "map_option var_type (var_in_result (read no_miscast general_semi_input) ''x'') = Some SEMIINTEGER
   \<and> map_option var_type (var_in_result (read no_miscast general_input) ''x'') = Some GENERAL
   \<and> map_option var_type (var_in_result (read no_miscast semi_input) ''x'') = Some SEMICONTINUOUS"
proof -
  obtain m1 vs1 where r1: "read no_miscast general_semi_input = Inr (m1, vs1)"
    using run_gs by (cases "read no_miscast general_semi_input") auto
  obtain m2 vs2 where r2: "read no_miscast general_input = Inr (m2, vs2)"
    using run_g by (cases "read no_miscast general_input") auto
  obtain m3 vs3 where r3: "read no_miscast semi_input = Inr (m3, vs3)"
    using run_s by (cases "read no_miscast semi_input") auto
  have "map_option var_type (vs1 ''x'') = Some SEMIINTEGER"
    using general_semi_types [where rawtokens = general_semi_input and miscast = no_miscast
        and m = m1 and vs = vs1 and n = "''x''" and bs = new_Builder
        and sec = "(\<lambda>k. [])(OBJ := [VARID ''x''], GEN := [VARID ''x''], SEMI := [VARID ''x''])"]
      pt_gs split_gs r1 by simp
  moreover have "map_option var_type (vs2 ''x'') = Some GENERAL"
    using general_semi_types [where rawtokens = general_input and miscast = no_miscast
        and m = m2 and vs = vs2 and n' = "''x''" and bs = new_Builder
        and sec = "(\<lambda>k. [])(OBJ := [VARID ''x''], GEN := [VARID ''x''])"]
      pt_g split_g r2 by simp
  moreover have "map_option var_type (vs3 ''x'') = Some SEMICONTINUOUS"
    using general_semi_types [where rawtokens = semi_input and miscast = no_miscast
        and m = m3 and vs = vs3 and n'' = "''x''" and bs = new_Builder
        and sec = "(\<lambda>k. [])(OBJ := [VARID ''x''], SEMI := [VARID ''x''])"]
      pt_s split_s r3 by simp
  ultimately show ?thesis
    using r1 r2 r3 by (simp add: var_in_result_def)
qed

lemma pt_gbs: "processtokens [R_STR ''min'', R_STR ''x'', R_STR ''general'', R_STR ''x'', R_STR ''binary'', R_STR ''x'',
       R_STR ''semi'', R_STR ''x'', R_STR ''end'', FLEND]
   = Inr [SECID OBJ OS_MIN, VARID ''x'', SECID GEN OS_NONE, VARID ''x'', SECID BIN OS_NONE, VARID ''x'',
       SECID SEMI OS_NONE, VARID ''x'', SECID END OS_NONE]"
  by code_simp

lemma pt_gss: "processtokens [R_STR ''min'', R_STR ''x'', R_STR ''general'', R_STR ''x'',
       R_STR ''semi'', R_STR ''x'', R_STR ''x'', R_STR ''end'', FLEND]
   = Inr [SECID OBJ OS_MIN, VARID ''x'', SECID GEN OS_NONE, VARID ''x'',
       SECID SEMI OS_NONE, VARID ''x'', VARID ''x'', SECID END OS_NONE]"
  by code_simp

text \<open>
  C7, as stated: a variable in both the general and the semi section ends
  semi-integer. It ends semi-continuous when it also stands in the binary section,
  which is processed between the two, and when it stands twice in the semi section.
\<close>

theorem general_semi_types_counterexample:
  "map_option var_type (var_in_result (read no_miscast
      [R_STR ''min'', R_STR ''x'', R_STR ''general'', R_STR ''x'', R_STR ''binary'', R_STR ''x'',
       R_STR ''semi'', R_STR ''x'', R_STR ''end'', FLEND]) ''x'') = Some SEMICONTINUOUS
   \<and> map_option var_type (var_in_result (read no_miscast
      [R_STR ''min'', R_STR ''x'', R_STR ''general'', R_STR ''x'',
       R_STR ''semi'', R_STR ''x'', R_STR ''x'', R_STR ''end'', FLEND]) ''x'') = Some SEMICONTINUOUS"
  apply (simp add: read_def andthen_def pt_gbs pt_gss)
  apply (simp add: run_defs loop_simps var_in_result_def)
  done

subsection \<open>The bounds section\<close>






subsection \<open>The constraints section\<close>

lemma getvarbyname_constraints:
  "constraints (model (getvarbyname c n)) = constraints (model c)"
  by (simp add: getvarbyname_def)

lemma parseexpression_constraints:
  assumes "parseexpression miscast tokens expr i b isobj = Inr (expr', j, b')"
  shows "constraints (model b') = constraints (model b)"
  by (rule parseexpression_builder
        [where P = "\<lambda>c. constraints (model c) = constraints (model b)", OF assms])
     (simp_all add: getvarbyname_constraints)

lemma processconsec_step_constraints:
  assumes "processconsec_step miscast tokens i b = Inr (j, b')"
  shows "\<exists>con. constraints (model b') = constraints (model b) @ [con] \<and> constraint_from tokens con"
proof -
  from assms obtain expr k b1 where
    pe: "parseexpression miscast tokens (con_expr new_Constraint) i b False = Inr (expr, k, b1)"
    unfolding processconsec_step_def by (auto split: sum.splits)
  have cs: "constraints (model b1) = constraints (model b)"
    using parseexpression_constraints [OF pe] .
  have ok: "k + 1 < length tokens" "is_COMP (tokens ! k)" "is_CONST (tokens ! (k + 1))"
    using assms pe unfolding processconsec_step_def by (auto split: if_splits)
  have from_k: "\<And>con. (case dir (tokens ! k) of
              EQ \<Rightarrow> con_lowerbound con = constvalue (tokens ! (k + 1))
                     \<and> con_upperbound con = constvalue (tokens ! (k + 1))
            | LEQ \<Rightarrow> con_lowerbound con = MInf
                     \<and> con_upperbound con = constvalue (tokens ! (k + 1))
            | GEQ \<Rightarrow> con_lowerbound con = constvalue (tokens ! (k + 1))
                     \<and> con_upperbound con = PInf
            | _ \<Rightarrow> False) \<Longrightarrow> constraint_from tokens con"
    unfolding constraint_from_def list_ex_iff using ok by (intro bexI [of _ k]) simp_all
  have "\<exists>con. constraints (model b') = constraints (model b) @ [con]
          \<and> (case dir (tokens ! k) of
              EQ \<Rightarrow> con_lowerbound con = constvalue (tokens ! (k + 1))
                     \<and> con_upperbound con = constvalue (tokens ! (k + 1))
            | LEQ \<Rightarrow> con_lowerbound con = MInf
                     \<and> con_upperbound con = constvalue (tokens ! (k + 1))
            | GEQ \<Rightarrow> con_lowerbound con = constvalue (tokens ! (k + 1))
                     \<and> con_upperbound con = PInf
            | _ \<Rightarrow> False)"
    using assms pe cs ok
    unfolding processconsec_step_def push_constraint_def new_Constraint_def
    by (cases "dir (tokens ! k)") (auto split: if_splits)
  then show ?thesis using from_k by blast
qed

lemma processconsec_loop_constraints:
  assumes "processconsec_loop miscast tokens i b = Inr b'"
  shows "\<exists>cs. constraints (model b') = constraints (model b) @ cs
           \<and> (\<forall>con \<in> set cs. constraint_from tokens con)"
proof -
  let ?I = "\<lambda>(k::nat) c. \<exists>cs. constraints (model c) = constraints (model b) @ cs
           \<and> (\<forall>con \<in> set cs. constraint_from tokens con)"
  have start: "?I i b" by simp
  have step: "\<And>k c k1 c1. ?I k c \<Longrightarrow> k < length tokens \<Longrightarrow>
           processconsec_step miscast tokens k c = Inr (k1, c1) \<Longrightarrow> ?I k1 c1"
  proof -
    fix k c k1 c1
    assume i: "?I k c" and s: "processconsec_step miscast tokens k c = Inr (k1, c1)"
    from i obtain cs where cs: "constraints (model c) = constraints (model b) @ cs"
      "\<forall>con \<in> set cs. constraint_from tokens con" by blast
    from processconsec_step_constraints [OF s] obtain con where
      con: "constraints (model c1) = constraints (model c) @ [con]" "constraint_from tokens con"
      by blast
    have "constraints (model c1) = constraints (model b) @ (cs @ [con])"
      using cs(1) con(1) by simp
    moreover have "\<forall>x \<in> set (cs @ [con]). constraint_from tokens x"
      using cs(2) con(2) by simp
    ultimately show "?I k1 c1" by blast
  qed
  have "\<exists>j. ?I j b' \<and> \<not> j < length tokens"
  proof (rule processconsec_loop_invariant [where I = ?I, OF assms])
    show "?I i b" by (rule start)
  next
    fix k c k1 c1
    assume "?I k c" "k < length tokens" "processconsec_step miscast tokens k c = Inr (k1, c1)"
    then show "?I k1 c1" by (rule step)
  qed
  then show ?thesis by blast
qed

lemma pt_strict:
  "processtokens [R_STR ''min'', R_STR ''o'', COLON, R_STR ''x'', R_STR ''st'', R_STR ''c'', COLON,
      R_STR ''x'', LESS, CONS (Fin 3), R_STR ''end'', FLEND]
   = Inr [SECID OBJ OS_MIN, CONID ''o'', VARID ''x'', SECID CON OS_NONE, CONID ''c'', VARID ''x'',
          COMP L, P_CONST (Fin 3), SECID END OS_NONE]"
  by code_simp

lemma read_strict:
  "read miscast [R_STR ''min'', R_STR ''o'', COLON, R_STR ''x'', R_STR ''st'', R_STR ''c'', COLON,
      R_STR ''x'', LESS, CONS (Fin 3), R_STR ''end'', FLEND] = Inl ParseError"
  apply (simp add: read_def andthen_def pt_strict)
  apply (simp add: run_defs loop_simps)
  done

text \<open>
  C5. In the constraints section, where the expression parser returns, a
  comparison and then a constant \<open>v\<close> must stand, or the processor fails; \<open>=\<close> gives
  the constraint the bounds \<open>v, v\<close>, \<open><=\<close> the upper bound \<open>v\<close>, \<open>>=\<close> the lower bound
  \<open>v\<close>, the other bound being infinite; a strict \<open><\<close> or \<open>>\<close> there makes the processor
  fail. Every constraint that a successful run adds has its bounds from such a
  comparison and constant of the section, and \<open>read\<close> fails on
  \<open>min o: x st c: x < 3 end\<close>.
\<close>

theorem constraint_bounds:
  "(parseexpression miscast tokens (con_expr new_Constraint) i b False = Inr (expr, k, b')
     \<longrightarrow> (k + 1 < length tokens \<and> tokens ! k = COMP d \<and> tokens ! (k + 1) = P_CONST v
           \<longrightarrow> processconsec_step miscast tokens i b =
               (case d of
                  EQ \<Rightarrow> Inr (k + 2, push_constraint b'
                           \<lparr>con_lowerbound = v, con_upperbound = v, con_expr = expr\<rparr>)
                | LEQ \<Rightarrow> Inr (k + 2, push_constraint b'
                           \<lparr>con_lowerbound = MInf, con_upperbound = v, con_expr = expr\<rparr>)
                | GEQ \<Rightarrow> Inr (k + 2, push_constraint b'
                           \<lparr>con_lowerbound = v, con_upperbound = PInf, con_expr = expr\<rparr>)
                | _ \<Rightarrow> Inl ParseError))
         \<and> (\<not> (k + 1 < length tokens \<and> is_COMP (tokens ! k) \<and> is_CONST (tokens ! (k + 1)))
           \<longrightarrow> processconsec_step miscast tokens i b = Inl ParseError)
         \<and> (i < length tokens \<and> (tokens ! k = COMP L \<or> tokens ! k = COMP G)
           \<longrightarrow> processconsec_loop miscast tokens i b = Inl ParseError))
   \<and> (processconsec_loop miscast tokens' j c = Inr c'
     \<longrightarrow> (\<exists>cs. constraints (model c') = constraints (model c) @ cs
              \<and> (\<forall>con \<in> set cs. constraint_from tokens' con)))
   \<and> read miscast [R_STR ''min'', R_STR ''o'', COLON, R_STR ''x'', R_STR ''st'', R_STR ''c'', COLON,
        R_STR ''x'', LESS, CONS (Fin 3), R_STR ''end'', FLEND] = Inl ParseError"
proof (intro conjI impI)
  assume pe: "parseexpression miscast tokens (con_expr new_Constraint) i b False = Inr (expr, k, b')"
    and a: "k + 1 < length tokens \<and> tokens ! k = COMP d \<and> tokens ! (k + 1) = P_CONST v"
  have t: "tokens ! k = COMP d" "tokens ! Suc k = P_CONST v" using a by simp_all
  show "processconsec_step miscast tokens i b =
               (case d of
                  EQ \<Rightarrow> Inr (k + 2, push_constraint b'
                           \<lparr>con_lowerbound = v, con_upperbound = v, con_expr = expr\<rparr>)
                | LEQ \<Rightarrow> Inr (k + 2, push_constraint b'
                           \<lparr>con_lowerbound = MInf, con_upperbound = v, con_expr = expr\<rparr>)
                | GEQ \<Rightarrow> Inr (k + 2, push_constraint b'
                           \<lparr>con_lowerbound = v, con_upperbound = PInf, con_expr = expr\<rparr>)
                | _ \<Rightarrow> Inl ParseError)"
  proof -
    have k2: "length tokens - k \<ge> 2" using a by linarith
    show ?thesis
      unfolding processconsec_step_def pe
      by (cases d) (simp_all add: t k2 new_Constraint_def)
  qed
next
  assume pe: "parseexpression miscast tokens (con_expr new_Constraint) i b False = Inr (expr, k, b')"
    and a: "\<not> (k + 1 < length tokens \<and> is_COMP (tokens ! k) \<and> is_CONST (tokens ! (k + 1)))"
  show "processconsec_step miscast tokens i b = Inl ParseError"
    unfolding processconsec_step_def pe using a by auto
next
  assume pe: "parseexpression miscast tokens (con_expr new_Constraint) i b False = Inr (expr, k, b')"
    and a: "i < length tokens \<and> (tokens ! k = COMP L \<or> tokens ! k = COMP G)"
  have "processconsec_step miscast tokens i b = Inl ParseError"
    unfolding processconsec_step_def pe using a by auto
  then show "processconsec_loop miscast tokens i b = Inl ParseError"
    using a by (simp add: processconsec_loop.simps [of miscast tokens i b])
next
  assume "processconsec_loop miscast tokens' j c = Inr c'"
  then show "\<exists>cs. constraints (model c') = constraints (model c) @ cs
              \<and> (\<forall>con \<in> set cs. constraint_from tokens' con)"
    by (rule processconsec_loop_constraints)
next
  show "read miscast [R_STR ''min'', R_STR ''o'', COLON, R_STR ''x'', R_STR ''st'', R_STR ''c'', COLON,
        R_STR ''x'', LESS, CONS (Fin 3), R_STR ''end'', FLEND] = Inl ParseError"
    by (rule read_strict)
qed

lemma leq_parse:
  "parseexpression no_miscast leq_tokens (con_expr new_Constraint) 0 new_Builder False
   = Inr (add_linterm (new_Expression\<lparr>name := ''c''\<rparr>) (Fin 1) ''x'', 2, getvarbyname new_Builder ''x'')"
  by (simp add: leq_tokens_def parseexpression_def parseexpression_loop.simps
      parseexpression_step_def read_conid_name_def new_Constraint_def)

lemma leq_loop:
  "processconsec_loop no_miscast leq_tokens 0 new_Builder
   = Inr (push_constraint (getvarbyname new_Builder ''x'')
       \<lparr>con_lowerbound = MInf, con_upperbound = Fin 4,
          con_expr = add_linterm (new_Expression\<lparr>name := ''c''\<rparr>) (Fin 1) ''x''\<rparr>)"
  apply (subst processconsec_loop.simps)
  apply (simp add: processconsec_step_def leq_parse)
  apply (simp add: leq_tokens_def new_Constraint_def)
  apply (subst processconsec_loop.simps)
  apply simp
  done

theorem constraint_bounds_witness:
  "processconsec_step no_miscast leq_tokens 0 new_Builder
     = Inr (4, push_constraint (getvarbyname new_Builder ''x'')
         \<lparr>con_lowerbound = MInf, con_upperbound = Fin 4,
            con_expr = add_linterm (new_Expression\<lparr>name := ''c''\<rparr>) (Fin 1) ''x''\<rparr>)
   \<and> (\<exists>cs. constraints (model (push_constraint (getvarbyname new_Builder ''x'')
         \<lparr>con_lowerbound = MInf, con_upperbound = Fin 4,
            con_expr = add_linterm (new_Expression\<lparr>name := ''c''\<rparr>) (Fin 1) ''x''\<rparr>))
         = constraints (model new_Builder) @ cs
       \<and> (\<forall>con \<in> set cs. constraint_from leq_tokens con))"
  using constraint_bounds [where miscast = no_miscast and tokens = leq_tokens and i = 0
     and b = new_Builder and k = 2 and d = LEQ and v = "Fin 4"
     and expr = "add_linterm (new_Expression\<lparr>name := ''c''\<rparr>) (Fin 1) ''x''"
     and b' = "getvarbyname new_Builder ''x''"
     and tokens' = leq_tokens and j = 0 and c = new_Builder
     and c' = "push_constraint (getvarbyname new_Builder ''x'')
         \<lparr>con_lowerbound = MInf, con_upperbound = Fin 4,
            con_expr = add_linterm (new_Expression\<lparr>name := ''c''\<rparr>) (Fin 1) ''x''\<rparr>"]
    leq_parse leq_loop
  by (simp add: leq_tokens_def)

subsection \<open>Quadratic blocks\<close>

lemma before1:
  assumes "tokens ! p = BRKCL" "tokens ! Suc p = SLASH" "k \<le> Suc p"
    "tokens ! k \<noteq> BRKCL" "tokens ! k \<noteq> SLASH"
  shows "Suc k \<le> p"
proof -
  have "k \<noteq> p" "k \<noteq> Suc p" using assms by auto
  then show ?thesis using assms(3) by simp
qed

lemma before2:
  assumes "tokens ! p = BRKCL" "tokens ! Suc p = SLASH" "k \<le> Suc p"
    "tokens ! k \<noteq> BRKCL" "tokens ! k \<noteq> SLASH"
    "tokens ! Suc k \<noteq> BRKCL" "tokens ! Suc k \<noteq> SLASH"
  shows "Suc (Suc k) \<le> p"
proof -
  have "Suc k \<le> p" using before1 [OF assms(1-5)] .
  then have "Suc k \<le> Suc p" by simp
  then show ?thesis using before1 [OF assms(1,2) _ assms(6,7)] by blast
qed

lemma before3:
  assumes "tokens ! p = BRKCL" "tokens ! Suc p = SLASH" "k \<le> Suc p"
    "tokens ! k \<noteq> BRKCL" "tokens ! k \<noteq> SLASH"
    "tokens ! Suc k \<noteq> BRKCL" "tokens ! Suc k \<noteq> SLASH"
    "tokens ! Suc (Suc k) \<noteq> BRKCL" "tokens ! Suc (Suc k) \<noteq> SLASH"
  shows "Suc (Suc (Suc k)) \<le> p"
proof -
  have "Suc (Suc k) \<le> p" using before2 [OF assms(1-7)] .
  then have "Suc (Suc k) \<le> Suc p" by simp
  then show ?thesis using before1 [OF assms(1,2) _ assms(8,9)] by blast
qed

lemma before4:
  assumes "tokens ! p = BRKCL" "tokens ! Suc p = SLASH" "k \<le> Suc p"
    "tokens ! k \<noteq> BRKCL" "tokens ! k \<noteq> SLASH"
    "tokens ! Suc k \<noteq> BRKCL" "tokens ! Suc k \<noteq> SLASH"
    "tokens ! Suc (Suc k) \<noteq> BRKCL" "tokens ! Suc (Suc k) \<noteq> SLASH"
    "tokens ! Suc (Suc (Suc k)) \<noteq> BRKCL" "tokens ! Suc (Suc (Suc k)) \<noteq> SLASH"
  shows "Suc (Suc (Suc (Suc k))) \<le> p"
proof -
  have "Suc (Suc (Suc k)) \<le> p" using before3 [OF assms(1-9)] .
  then have "Suc (Suc (Suc k)) \<le> Suc p" by simp
  then show ?thesis using before1 [OF assms(1,2) _ assms(10,11)] by blast
qed

lemma quadterm_step_cases:
  assumes "quadterm_step tokens e k c = Inr (Some (e1, k1, c1))"
  shows "(k1 = k + 4 \<and> is_CONST (tokens ! k) \<and> is_VARID (tokens ! Suc k)
            \<and> (tokens ! Suc (Suc k) = HAT \<or> tokens ! Suc (Suc k) = ASTERISK)
            \<and> (is_CONST (tokens ! Suc (Suc (Suc k))) \<or> is_VARID (tokens ! Suc (Suc (Suc k)))))
       \<or> (k1 = k + 3 \<and> is_VARID (tokens ! k)
            \<and> (tokens ! Suc k = HAT \<or> tokens ! Suc k = ASTERISK)
            \<and> (is_CONST (tokens ! Suc (Suc k)) \<or> is_VARID (tokens ! Suc (Suc k))))"
  using assms unfolding quadterm_step_def
  by (simp split: if_splits add: eval_nat_numeral)

lemma quadterm_step_before:
  assumes "quadterm_step tokens e k c = Inr (Some (e1, k1, c1))"
    and "tokens ! p = BRKCL" "tokens ! Suc p = SLASH" "k \<le> p"
  shows "k1 \<le> p"
proof -
  have kp: "k \<le> Suc p" using assms(4) by simp
  from quadterm_step_cases [OF assms(1)] show ?thesis
  proof
    assume a: "k1 = k + 4 \<and> is_CONST (tokens ! k) \<and> is_VARID (tokens ! Suc k)
            \<and> (tokens ! Suc (Suc k) = HAT \<or> tokens ! Suc (Suc k) = ASTERISK)
            \<and> (is_CONST (tokens ! Suc (Suc (Suc k))) \<or> is_VARID (tokens ! Suc (Suc (Suc k))))"
    then have "Suc (Suc (Suc (Suc k))) \<le> p"
      by (intro before4 [OF assms(2,3) kp]) auto
    then show ?thesis using a by simp
  next
    assume a: "k1 = k + 3 \<and> is_VARID (tokens ! k)
            \<and> (tokens ! Suc k = HAT \<or> tokens ! Suc k = ASTERISK)
            \<and> (is_CONST (tokens ! Suc (Suc k)) \<or> is_VARID (tokens ! Suc (Suc k)))"
    then have "Suc (Suc (Suc k)) \<le> p"
      by (intro before3 [OF assms(2,3) kp]) auto
    then show ?thesis using a by simp
  qed
qed

lemma quadloop_before:
  assumes "quadloop tokens expr i b = Inr (expr', j, b')"
    and "tokens ! p = BRKCL" "tokens ! Suc p = SLASH" "i \<le> p"
  shows "j \<le> p"
proof (rule quadloop_invariant [where I = "\<lambda>e k c. k \<le> p", OF assms(1)])
  show "i \<le> p" by (rule assms(4))
next
  fix e k c e1 k1 c1
  assume "k \<le> p" "quadterm_step tokens e k c = Inr (Some (e1, k1, c1))"
  then show "k1 \<le> p" using quadterm_step_before assms(2,3) by blast
qed

lemma parseexpression_step_before:
  assumes "parseexpression_step tokens e k c False = Inr (Some (e1, k1, c1))"
    and "tokens ! p = BRKCL" "tokens ! Suc p = SLASH" "k \<le> Suc p"
  shows "k1 \<le> Suc p"
proof (cases "length tokens - k \<ge> 2 \<and> tokens ! k = BRKOP")
  case True
  then obtain ex j where q: "quadloop tokens e (k + 1) c = Inr (ex, j, c1)"
    and cb: "closebracket tokens j False = Inr k1"
    using assms(1) unfolding parseexpression_step_def
    by (auto split: if_splits sum.splits)
  have "Suc k \<le> p" using before1 [OF assms(2,3,4)] True by simp
  then have "j \<le> p" using quadloop_before [OF q assms(2,3)] by simp
  then show ?thesis using cb unfolding closebracket_def by (auto split: if_splits)
next
  case False
  then have "(k1 = k + 2 \<and> is_CONST (tokens ! k) \<and> is_VARID (tokens ! Suc k))
      \<or> (k1 = k + 1 \<and> (is_CONST (tokens ! k) \<or> is_VARID (tokens ! k)))"
    using assms(1) unfolding parseexpression_step_def
    by (auto split: if_splits)
  then show ?thesis
  proof
    assume a: "k1 = k + 2 \<and> is_CONST (tokens ! k) \<and> is_VARID (tokens ! Suc k)"
    then have "Suc (Suc k) \<le> p"
      by (intro before2 [OF assms(2,3,4)]) auto
    then show ?thesis using a by simp
  next
    assume a: "k1 = k + 1 \<and> (is_CONST (tokens ! k) \<or> is_VARID (tokens ! k))"
    then have "Suc k \<le> p"
      by (intro before1 [OF assms(2,3,4)]) auto
    then show ?thesis using a by simp
  qed
qed

lemma parseexpression_before:
  assumes "parseexpression miscast tokens expr i b False = Inr (expr', j, b')"
    and "tokens ! p = BRKCL" "tokens ! Suc p = SLASH" "i \<le> p"
  shows "j \<le> Suc p"
proof -
  obtain e0 i0 where run: "parseexpression_loop tokens e0 i0 b False = Inr (expr', j, b')"
    and i0: "i0 \<le> Suc p"
    using assms(1,4) unfolding parseexpression_def by (auto split: if_splits)
  show ?thesis
  proof (rule parseexpression_loop_invariant [where I = "\<lambda>e k c. k \<le> Suc p", OF run])
    show "i0 \<le> Suc p" by (rule i0)
  next
    fix e k c e1 k1 c1
    assume "k \<le> Suc p" "parseexpression_step tokens e k c False = Inr (Some (e1, k1, c1))"
    then show "k1 \<le> Suc p" using parseexpression_step_before assms(2,3) by blast
  qed
qed

lemma processconsec_step_before:
  assumes "processconsec_step miscast tokens i b = Inr (j, b')"
    and "tokens ! p = BRKCL" "tokens ! Suc p = SLASH" "i \<le> p"
  shows "j \<le> p"
proof -
  from assms(1) obtain expr k b1 where
    pe: "parseexpression miscast tokens (con_expr new_Constraint) i b False = Inr (expr, k, b1)"
    unfolding processconsec_step_def by (auto split: sum.splits)
  have ok: "is_COMP (tokens ! k)" "is_CONST (tokens ! Suc k)" "j = k + 2"
    using assms(1) pe unfolding processconsec_step_def
    by (auto split: if_splits LpComparisonType.splits)
  have "k \<le> Suc p" using parseexpression_before [OF pe assms(2,3,4)] .
  then have "Suc (Suc k) \<le> p"
    using ok by (intro before2 [OF assms(2,3)]) auto
  then show ?thesis using ok(3) by simp
qed

lemma processconsec_loop_trailer:
  assumes "p + 1 < length tokens" "tokens ! p = BRKCL" "tokens ! (p + 1) = SLASH"
  shows "processconsec_loop miscast tokens 0 b = Inl ParseError"
proof (cases "processconsec_loop miscast tokens 0 b")
  case (Inl e)
  then show ?thesis by (simp add: error_is_ParseError)
next
  case (Inr b')
  have sl: "tokens ! Suc p = SLASH" using assms(3) by simp
  have "\<exists>j. j \<le> p \<and> \<not> j < length tokens"
  proof (rule processconsec_loop_invariant [where I = "\<lambda>k c. k \<le> p", OF Inr])
    show "0 \<le> p" by simp
  next
    fix k c k1 c1
    assume "k \<le> p" "processconsec_step miscast tokens k c = Inr (k1, c1)"
    then show "k1 \<le> p" using processconsec_step_before assms(2) sl by blast
  qed
  then show ?thesis using assms(1) by auto
qed

lemma spec_quadterm_index:
  "spec_quadterm xs =
     (if length xs \<ge> 4 \<and> is_CONST (xs ! 0) \<and> is_VARID (xs ! 1) \<and> xs ! 2 = HAT \<and> is_CONST (xs ! 3)
      then (if constvalue (xs ! 3) = Fin 2
            then Some (\<lparr>qt_coef = constvalue (xs ! 0), qt_var1 = varname (xs ! 1),
                        qt_var2 = varname (xs ! 1)\<rparr>, 4)
            else None)
      else if length xs \<ge> 3 \<and> is_VARID (xs ! 0) \<and> xs ! 1 = HAT \<and> is_CONST (xs ! 2)
      then (if constvalue (xs ! 2) = Fin 2
            then Some (\<lparr>qt_coef = Fin 1, qt_var1 = varname (xs ! 0), qt_var2 = varname (xs ! 0)\<rparr>, 3)
            else None)
      else if length xs \<ge> 4 \<and> is_CONST (xs ! 0) \<and> is_VARID (xs ! 1) \<and> xs ! 2 = ASTERISK
                \<and> is_VARID (xs ! 3)
      then Some (\<lparr>qt_coef = constvalue (xs ! 0), qt_var1 = varname (xs ! 1),
                  qt_var2 = varname (xs ! 3)\<rparr>, 4)
      else if length xs \<ge> 3 \<and> is_VARID (xs ! 0) \<and> xs ! 1 = ASTERISK \<and> is_VARID (xs ! 2)
      then Some (\<lparr>qt_coef = Fin 1, qt_var1 = varname (xs ! 0), qt_var2 = varname (xs ! 2)\<rparr>, 3)
      else None)"
  unfolding spec_quadterm_def
  by (simp split: list.splits ProcessedToken.splits)


lemma spec_quadterm_drop:
  assumes "k \<le> length ts"
  shows "spec_quadterm (drop k ts) =
     (if length ts - k \<ge> 4 \<and> is_CONST (ts ! k) \<and> is_VARID (ts ! (k + 1)) \<and> ts ! (k + 2) = HAT
         \<and> is_CONST (ts ! (k + 3))
      then (if constvalue (ts ! (k + 3)) = Fin 2
            then Some (\<lparr>qt_coef = constvalue (ts ! k), qt_var1 = varname (ts ! (k + 1)),
                        qt_var2 = varname (ts ! (k + 1))\<rparr>, 4)
            else None)
      else if length ts - k \<ge> 3 \<and> is_VARID (ts ! k) \<and> ts ! (k + 1) = HAT \<and> is_CONST (ts ! (k + 2))
      then (if constvalue (ts ! (k + 2)) = Fin 2
            then Some (\<lparr>qt_coef = Fin 1, qt_var1 = varname (ts ! k), qt_var2 = varname (ts ! k)\<rparr>, 3)
            else None)
      else if length ts - k \<ge> 4 \<and> is_CONST (ts ! k) \<and> is_VARID (ts ! (k + 1))
                \<and> ts ! (k + 2) = ASTERISK \<and> is_VARID (ts ! (k + 3))
      then Some (\<lparr>qt_coef = constvalue (ts ! k), qt_var1 = varname (ts ! (k + 1)),
                  qt_var2 = varname (ts ! (k + 3))\<rparr>, 4)
      else if length ts - k \<ge> 3 \<and> is_VARID (ts ! k) \<and> ts ! (k + 1) = ASTERISK
                \<and> is_VARID (ts ! (k + 2))
      then Some (\<lparr>qt_coef = Fin 1, qt_var1 = varname (ts ! k), qt_var2 = varname (ts ! (k + 2))\<rparr>, 3)
      else None)"
  using assms unfolding spec_quadterm_index [of "drop k ts"] by simp

lemma quadterm_step_spec_Some:
  assumes "quadterm_step ts e k c = Inr (Some (e1, k1, c1))" "k \<le> length ts"
  shows "\<exists>q n. spec_quadterm (drop k ts) = Some (q, n) \<and> quadterms e1 = quadterms e @ [q]
           \<and> k1 = k + n"
  using assms(1) unfolding spec_quadterm_drop [OF assms(2)] quadterm_step_def add_quadterm_def
  by (simp split: if_splits; clarsimp)

lemma quadterm_step_spec_None:
  assumes "quadterm_step ts e k c = Inr None" "k \<le> length ts"
  shows "spec_quadterm (drop k ts) = None"
  using assms(1) unfolding spec_quadterm_drop [OF assms(2)] quadterm_step_def
  by (simp split: if_splits)

lemma spec_block_None: "spec_quadterm xs = None \<Longrightarrow> spec_block xs = ([], xs)"
  by (simp add: spec_block.simps [of xs])

lemma spec_block_Some:
  "spec_quadterm xs = Some (q, n) \<Longrightarrow>
     spec_block xs = (q # fst (spec_block (drop n xs)), snd (spec_block (drop n xs)))"
  by (simp add: spec_block.simps [of xs] split: prod.splits)

lemma spec_quadterm_Nil: "spec_quadterm [] = None"
  by (simp add: spec_quadterm_def)

lemma spec_quadterm_BRKCL: "spec_quadterm (BRKCL # xs) = None"
  by (simp add: spec_quadterm_def)

lemma drop_nth_Cons: "k < length ts \<Longrightarrow> drop k ts = ts ! k # drop (Suc k) ts"
  by (simp add: Cons_nth_drop_Suc)

lemma quadloop_spec:
  assumes "quadloop ts expr i b = Inr (expr', j, b')" "i \<le> length ts"
  shows "quadterms expr' = quadterms expr @ fst (spec_block (drop i ts))
           \<and> drop j ts = snd (spec_block (drop i ts))"
  using assms
proof (induction ts expr i b rule: quadloop.induct)
  case (1 tokens expr i b)
  note unfold = quadloop.simps [of tokens expr i b]
  show ?case
  proof (cases "i < length tokens \<and> tokens ! i \<noteq> BRKCL")
    case False
    have res: "expr' = expr" "j = i" using False "1.prems"(1) unfold by auto
    have "spec_quadterm (drop i tokens) = None"
    proof (cases "i < length tokens")
      case True
      then have "tokens ! i = BRKCL" using False by simp
      then show ?thesis using drop_nth_Cons [OF True] by (simp add: spec_quadterm_BRKCL)
    next
      case False
      then show ?thesis by (simp add: spec_quadterm_Nil)
    qed
    then show ?thesis using res by (simp add: spec_block_None)
  next
    case True
    show ?thesis
    proof (cases "quadterm_step tokens expr i b")
      case (Inl e)
      with True "1.prems" unfold show ?thesis by simp
    next
      case (Inr r)
      show ?thesis
      proof (cases r)
        case None
        have res: "expr' = expr" "j = i" using True Inr None "1.prems"(1) unfold by auto
        have "spec_quadterm (drop i tokens) = None"
          using quadterm_step_spec_None Inr None "1.prems"(2) by blast
        then show ?thesis using res by (simp add: spec_block_None)
      next
        case (Some s)
        obtain e1 j1 b1 where s: "s = (e1, j1, b1)" by (cases s) auto
        have step: "quadterm_step tokens expr i b = Inr (Some (e1, j1, b1))"
          using Inr Some s by simp
        have run: "quadloop tokens e1 j1 b1 = Inr (expr', j, b')"
          using True step "1.prems"(1) unfold by simp
        from quadterm_step_spec_Some [OF step "1.prems"(2)] obtain q n where
          q: "spec_quadterm (drop i tokens) = Some (q, n)" "quadterms e1 = quadterms expr @ [q]"
            "j1 = i + n" by blast
        have "n \<le> length (drop i tokens)" using spec_quadterm_length [OF q(1)] by simp
        then have j1: "j1 \<le> length tokens" using q(3) "1.prems"(2) by simp
        have d: "drop n (drop i tokens) = drop j1 tokens" using q(3) by (simp add: add.commute)
        have ih: "quadterms expr' = quadterms e1 @ fst (spec_block (drop j1 tokens))
           \<and> drop j tokens = snd (spec_block (drop j1 tokens))"
          using "1.IH" [OF True Inr Some s [symmetric] _ run j1] by simp
        have sb: "spec_block (drop i tokens) =
            (q # fst (spec_block (drop j1 tokens)), snd (spec_block (drop j1 tokens)))"
          using spec_block_Some [OF q(1)] unfolding d .
        show ?thesis using ih q(2) unfolding sb by simp
      qed
    qed
  qed
qed


lemma spec_quadterms_skip:
  assumes "k < length ts" "is_CONST (ts ! k) \<or> is_VARID (ts ! k)"
  shows "spec_quadterms isobj (drop k ts) = spec_quadterms isobj (drop (Suc k) ts)"
  unfolding drop_nth_Cons [OF assms(1)] using assms(2) by (simp add: spec_quadterms.simps)

lemma spec_quadterms_stop:
  assumes "k < length ts" "\<not> is_CONST (ts ! k)" "\<not> is_VARID (ts ! k)"
    "ts ! k = BRKOP \<longrightarrow> Suc k = length ts"
  shows "spec_quadterms isobj (drop k ts) = []"
proof (cases "ts ! k = BRKOP")
  case True
  then have "drop (Suc k) ts = []" using assms(4) by simp
  then show ?thesis unfolding drop_nth_Cons [OF assms(1)] using True
    by (simp add: spec_quadterms.simps spec_block_None spec_quadterm_Nil)
next
  case False
  then show ?thesis unfolding drop_nth_Cons [OF assms(1)] using assms(2,3)
    by (simp add: spec_quadterms.simps)
qed

lemma spec_quadterms_block:
  assumes "k < length ts" "ts ! k = BRKOP"
    "spec_block (drop (Suc k) ts) = (qs, BRKCL # rest)"
  shows "spec_quadterms isobj (drop k ts)
         = qs @ spec_quadterms isobj (if isobj then drop 2 rest else rest)"
  unfolding drop_nth_Cons [OF assms(1)] using assms(2,3)
  by (simp add: spec_quadterms.simps)

lemma parseexpression_step_spec_None:
  assumes "parseexpression_step ts e k c isobj = Inr None" "k < length ts"
  shows "spec_quadterms isobj (drop k ts) = []"
proof (rule spec_quadterms_stop [OF assms(2)])
  have len: "length ts - k \<ge> 1" using assms(2) by simp
  show "\<not> is_CONST (ts ! k)" using assms(1) len unfolding parseexpression_step_def
    by (auto split: if_splits)
  show "\<not> is_VARID (ts ! k)" using assms(1) len unfolding parseexpression_step_def
    by (auto split: if_splits)
  show "ts ! k = BRKOP \<longrightarrow> Suc k = length ts"
  proof
    assume br: "ts ! k = BRKOP"
    have "\<not> length ts - k \<ge> 2"
      using assms(1) br unfolding parseexpression_step_def
      by (auto split: if_splits sum.splits)
    then show "Suc k = length ts" using assms(2) by simp
  qed
qed

lemma parseexpression_step_spec_Some:
  assumes "parseexpression_step ts e k c isobj = Inr (Some (e1, k1, c1))" "k < length ts"
  shows "k1 \<le> length ts \<and> (\<exists>qs. quadterms e1 = quadterms e @ qs
           \<and> spec_quadterms isobj (drop k ts) = qs @ spec_quadterms isobj (drop k1 ts))"
proof (cases "is_CONST (ts ! k) \<or> is_VARID (ts ! k)")
  case True
  note cv = True
  have skip: "spec_quadterms isobj (drop k ts) = spec_quadterms isobj (drop (Suc k) ts)"
    by (rule spec_quadterms_skip [OF assms(2) True])
  show ?thesis
  proof (cases "length ts - k \<ge> 2 \<and> is_CONST (ts ! k) \<and> is_VARID (ts ! (k + 1))")
    case True
    have r: "quadterms e1 = quadterms e" "k1 = Suc (Suc k)"
      using assms(1) True unfolding parseexpression_step_def add_linterm_def by auto
    have "length ts - k \<ge> 2" using True by blast
    then have k: "Suc k < length ts" by linarith
    have "spec_quadterms isobj (drop (Suc k) ts) = spec_quadterms isobj (drop (Suc (Suc k)) ts)"
      using spec_quadterms_skip [OF k] True by simp
    then show ?thesis using r skip k by simp
  next
    case False
    have r: "quadterms e1 = quadterms e" "k1 = Suc k"
      using assms False cv unfolding parseexpression_step_def add_linterm_def
      by (auto split: if_splits)
    then show ?thesis using skip assms(2) by simp
  qed
next
  case False
  have br: "length ts - k \<ge> 2" "ts ! k = BRKOP"
    using assms(1) False unfolding parseexpression_step_def by (auto split: if_splits)
  obtain j where q: "quadloop ts e (k + 1) c = Inr (e1, j, c1)"
    and cb: "closebracket ts j isobj = Inr k1"
    using assms(1) False br unfolding parseexpression_step_def
    by (auto split: if_splits sum.splits)
  have k: "k + 1 \<le> length ts" using assms(2) by simp
  from quadloop_spec [OF q k] have
    qs: "quadterms e1 = quadterms e @ fst (spec_block (drop (Suc k) ts))"
      "drop j ts = snd (spec_block (drop (Suc k) ts))" by simp_all
  have j: "j < length ts" "ts ! j = BRKCL"
    using cb unfolding closebracket_def by (auto split: if_splits)
  have k1: "k1 \<le> length ts" "k1 = (if isobj then j + 3 else j + 1)"
    using cb unfolding closebracket_def by (auto split: if_splits)
  have sb: "spec_block (drop (Suc k) ts)
      = (fst (spec_block (drop (Suc k) ts)), BRKCL # drop (Suc j) ts)"
    using qs(2) drop_nth_Cons [OF j(1)] j(2) by (simp add: prod_eq_iff)
  have rest: "(if isobj then drop 2 (drop (Suc j) ts) else drop (Suc j) ts) = drop k1 ts"
    using k1(2) by (simp add: eval_nat_numeral)
  have "spec_quadterms isobj (drop k ts)
      = fst (spec_block (drop (Suc k) ts)) @ spec_quadterms isobj (drop k1 ts)"
    using spec_quadterms_block [OF assms(2) br(2) sb, of isobj] unfolding rest .
  then show ?thesis using qs(1) k1(1) by blast
qed

lemma parseexpression_loop_spec:
  assumes "parseexpression_loop ts expr i b isobj = Inr (expr', j, b')" "i \<le> length ts"
  shows "quadterms expr' = quadterms expr @ spec_quadterms isobj (drop i ts)"
  using assms
proof (induction ts expr i b isobj rule: parseexpression_loop.induct)
  case (1 tokens expr i b isobj)
  note unfold = parseexpression_loop.simps [of tokens expr i b isobj]
  show ?case
  proof (cases "i < length tokens")
    case False
    then have "expr' = expr" "drop i tokens = []" using "1.prems" unfold by auto
    then show ?thesis by (simp add: spec_quadterms.simps)
  next
    case True
    show ?thesis
    proof (cases "parseexpression_step tokens expr i b isobj")
      case (Inl e)
      with True "1.prems" unfold show ?thesis by simp
    next
      case (Inr r)
      show ?thesis
      proof (cases r)
        case None
        have "expr' = expr" using True Inr None "1.prems"(1) unfold by auto
        moreover have "spec_quadterms isobj (drop i tokens) = []"
          using parseexpression_step_spec_None True Inr None by blast
        ultimately show ?thesis by simp
      next
        case (Some s)
        obtain e1 j1 b1 where s: "s = (e1, j1, b1)" by (cases s) auto
        have step: "parseexpression_step tokens expr i b isobj = Inr (Some (e1, j1, b1))"
          using Inr Some s by simp
        have run: "parseexpression_loop tokens e1 j1 b1 isobj = Inr (expr', j, b')"
          using True step "1.prems"(1) unfold by simp
        from parseexpression_step_spec_Some [OF step True] obtain qs where
          qs: "j1 \<le> length tokens" "quadterms e1 = quadterms expr @ qs"
            "spec_quadterms isobj (drop i tokens) = qs @ spec_quadterms isobj (drop j1 tokens)"
          by blast
        have "quadterms expr' = quadterms e1 @ spec_quadterms isobj (drop j1 tokens)"
          using "1.IH" [OF True Inr Some s [symmetric] _ run qs(1)] by simp
        then show ?thesis using qs(2,3) by simp
      qed
    qed
  qed
qed

lemma spec_unlabel_drop:
  "spec_unlabel ts = drop (if length ts \<ge> 1 \<and> is_CONID (ts ! 0) then 1 else 0) ts"
  unfolding spec_unlabel_def
  by (cases ts) (auto split: ProcessedToken.splits)

lemma processobjsec_spec:
  assumes "processobjsec miscast sec b = Inr b'"
  shows "quadterms (objective (model b')) = spec_quadterms True (spec_unlabel (sec OBJ))"
proof -
  from assms obtain expr k b1 where
    pe: "parseexpression miscast (sec OBJ) new_Expression 0 b True = Inr (expr, k, b1)"
    and b': "b' = b1\<lparr>model := (model b1)\<lparr>objective := expr\<rparr>\<rparr>"
    unfolding processobjsec_def by (auto split: sum.splits if_splits)
  have "quadterms expr = spec_quadterms True (spec_unlabel (sec OBJ))"
  proof (cases "length (sec OBJ) \<ge> 1 \<and> is_CONID (sec OBJ ! 0)")
    case True
    have run: "parseexpression_loop (sec OBJ)
        (new_Expression\<lparr>name := read_conid_name miscast (sec OBJ ! 0)\<rparr>) (0 + 1) b True
          = Inr (expr, k, b1)"
      using pe True unfolding parseexpression_def by simp
    have "0 + 1 \<le> length (sec OBJ)" using True by simp
    from parseexpression_loop_spec [OF run this] show ?thesis
      using True by (simp add: spec_unlabel_drop new_Expression_def)
  next
    case False
    have run: "parseexpression_loop (sec OBJ) new_Expression 0 b True = Inr (expr, k, b1)"
      using pe False unfolding parseexpression_def by auto
    have "spec_unlabel (sec OBJ) = drop 0 (sec OBJ)"
      using False unfolding spec_unlabel_drop by auto
    then show ?thesis
      using parseexpression_loop_spec [OF run] by (simp add: new_Expression_def)
  qed
  then show ?thesis using b' by simp
qed

lemma processconsec_step_spec:
  assumes "processconsec_step miscast tokens i b = Inr (j, b')" "i < length tokens"
  shows "\<exists>con. constraints (model b') = constraints (model b) @ [con]
           \<and> quadterms (con_expr con)
               = spec_quadterms False (drop (if is_CONID (tokens ! 0) then i + 1 else i) tokens)"
proof -
  from assms obtain expr k b1 where
    pe: "parseexpression miscast tokens new_Expression i b False = Inr (expr, k, b1)"
    unfolding processconsec_step_def new_Constraint_def by (auto split: sum.splits)
  have cs: "constraints (model b1) = constraints (model b)"
    by (rule parseexpression_builder
        [where P = "\<lambda>c. constraints (model c) = constraints (model b)", OF pe])
       (simp_all add: getvarbyname_def)
  have con: "\<exists>con. constraints (model b') = constraints (model b) @ [con] \<and> con_expr con = expr"
    using assms pe cs
    unfolding processconsec_step_def push_constraint_def new_Constraint_def
    by (auto split: if_splits LpComparisonType.splits)
  have "quadterms expr
      = spec_quadterms False (drop (if is_CONID (tokens ! 0) then i + 1 else i) tokens)"
  proof (cases "is_CONID (tokens ! 0)")
    case True
    have "length tokens - i \<ge> 1" using assms(2) by linarith
    then have run: "parseexpression_loop tokens
        (new_Expression\<lparr>name := read_conid_name miscast (tokens ! i)\<rparr>) (i + 1) b False
          = Inr (expr, k, b1)"
      using pe True unfolding parseexpression_def by simp
    have "i + 1 \<le> length tokens" using assms(2) by simp
    from parseexpression_loop_spec [OF run this] show ?thesis
      using True by (simp add: new_Expression_def)
  next
    case False
    have run: "parseexpression_loop tokens new_Expression i b False = Inr (expr, k, b1)"
      using pe False unfolding parseexpression_def by auto
    have "i \<le> length tokens" using assms(2) by simp
    from parseexpression_loop_spec [OF run this] show ?thesis
      using False by (simp add: new_Expression_def)
  qed
  then show ?thesis using con by auto
qed

lemma pt_quad:
  "processtokens quad_input
   = Inr [SECID OBJ OS_MIN, BRKOP, P_CONST (Fin 2), VARID ''x'', HAT, P_CONST (Fin 2), BRKCL, SLASH,
          P_CONST (Fin 2), SECID CON OS_NONE, BRKOP, VARID ''x'', HAT, P_CONST (Fin 2), BRKCL,
          COMP LEQ, P_CONST (Fin 4), SECID END OS_NONE]"
  unfolding quad_input_def by code_simp

lemma read_quad:
  "read miscast quad_input
       = Inr (\<lparr>sense = SENSE_MIN,
               objective = \<lparr>linterms = [],
                  quadterms = [\<lparr>qt_coef = Fin 2, qt_var1 = ''x'', qt_var2 = ''x''\<rparr>],
                  offset = Fin 0, name = []\<rparr>,
               constraints = [\<lparr>con_lowerbound = MInf, con_upperbound = Fin 4,
                  con_expr = \<lparr>linterms = [],
                     quadterms = [\<lparr>qt_coef = Fin 1, qt_var1 = ''x'', qt_var2 = ''x''\<rparr>],
                     offset = Fin 0, name = []\<rparr>\<rparr>],
               soss = [], model_variables = [''x'']\<rparr>,
              [''x'' \<mapsto> \<lparr>var_type = CONTINUOUS, var_lowerbound = Fin 0,
                           var_upperbound = PInf, var_name = ''x''\<rparr>])"
  apply (simp add: read_def andthen_def pt_quad)
  apply (simp add: run_defs loop_simps)
  done

lemma pt_quad_trailer:
  "processtokens quad_trailer_input
   = Inr [SECID OBJ OS_MIN, VARID ''x'', SECID CON OS_NONE, BRKOP, VARID ''x'', HAT,
          P_CONST (Fin 2), BRKCL, SLASH, P_CONST (Fin 2), COMP LEQ, P_CONST (Fin 4),
          SECID END OS_NONE]"
  unfolding quad_trailer_input_def by code_simp

lemma read_quad_trailer: "read miscast quad_trailer_input = Inl ParseError"
  apply (simp add: read_def andthen_def pt_quad_trailer)
  apply (simp add: run_defs loop_simps)
  done

text \<open>
  C4. Where the inner loop of a quadratic block stops, the objective requires
  \<open>]\<close>, \<open>/\<close> and the constant 2 and goes on after them, and fails otherwise; a
  constraint requires \<open>]\<close> alone and goes on after it. A constraints section in
  which \<open>/\<close> stands immediately after \<open>]\<close>, anywhere, makes the constraints
  processor fail. The quadratic terms that are stored are exactly those of the
  tokens, in order, each with the constant that stands before its variable as its
  coefficient, or 1 where none stands, never divided: the inner loop of a block
  appends the terms that \<open>spec_block\<close> finds from where the loop starts, and stops
  at the tokens that \<open>spec_block\<close> leaves; the term loop of the expression parser
  appends \<open>spec_quadterms\<close> of the tokens from where it starts; the objective that
  the objective processor stores has the terms \<open>spec_quadterms True\<close> of its tokens
  after the label; and the constraint that one turn of the constraints processor
  adds to the model has the terms \<open>spec_quadterms False\<close> of the tokens from where
  its term loop starts, which is one token further where the section begins with a
  label. So \<open>read\<close> on \<open>min [ 2 x ^ 2 ] / 2 st [ x ^ 2 ] <= 4 end\<close> gives the objective
  the term \<open>(2, x, x)\<close> and the constraint the term \<open>(1, x, x)\<close>, and fails on
  \<open>min x st [ x ^ 2 ] / 2 <= 4 end\<close>.
\<close>

theorem quadratic_block_closing:
  "(i + 1 < length tokens \<and> tokens ! i = BRKOP
      \<and> quadloop tokens expr (i + 1) b = Inr (expr', j, b')
     \<longrightarrow> parseexpression_step tokens expr i b True =
           (if j + 2 < length tokens \<and> tokens ! j = BRKCL \<and> tokens ! (j + 1) = SLASH
               \<and> tokens ! (j + 2) = P_CONST (Fin 2)
            then Inr (Some (expr', j + 3, b')) else Inl ParseError)
       \<and> parseexpression_step tokens expr i b False =
           (if j < length tokens \<and> tokens ! j = BRKCL
            then Inr (Some (expr', j + 1, b')) else Inl ParseError))
   \<and> (p + 1 < length (sec CON) \<and> sec CON ! p = BRKCL \<and> sec CON ! (p + 1) = SLASH
     \<longrightarrow> processconsec miscast sec c = Inl ParseError)
   \<and> (n \<le> length ts \<and> quadloop ts e n d = Inr (e', n', d')
     \<longrightarrow> quadterms e' = quadterms e @ fst (spec_block (drop n ts))
         \<and> drop n' ts = snd (spec_block (drop n ts)))
   \<and> (k \<le> length tokens'
       \<and> parseexpression_loop tokens' einit k cinit isobj = Inr (eres, kres, cres)
     \<longrightarrow> quadterms eres = quadterms einit @ spec_quadterms isobj (drop k tokens'))
   \<and> (processobjsec miscast osec oinit = Inr ores
     \<longrightarrow> quadterms (objective (model ores)) = spec_quadterms True (spec_unlabel (osec OBJ)))
   \<and> (m < length ctoks \<and> processconsec_step miscast ctoks m dinit = Inr (m', dres)
     \<longrightarrow> (\<exists>con. constraints (model dres) = constraints (model dinit) @ [con]
             \<and> quadterms (con_expr con)
                 = spec_quadterms False
                     (drop (if is_CONID (ctoks ! 0) then m + 1 else m) ctoks)))
   \<and> read miscast quad_input
       = Inr (\<lparr>sense = SENSE_MIN,
               objective = \<lparr>linterms = [],
                  quadterms = [\<lparr>qt_coef = Fin 2, qt_var1 = ''x'', qt_var2 = ''x''\<rparr>],
                  offset = Fin 0, name = []\<rparr>,
               constraints = [\<lparr>con_lowerbound = MInf, con_upperbound = Fin 4,
                  con_expr = \<lparr>linterms = [],
                     quadterms = [\<lparr>qt_coef = Fin 1, qt_var1 = ''x'', qt_var2 = ''x''\<rparr>],
                     offset = Fin 0, name = []\<rparr>\<rparr>],
               soss = [], model_variables = [''x'']\<rparr>,
              [''x'' \<mapsto> \<lparr>var_type = CONTINUOUS, var_lowerbound = Fin 0,
                           var_upperbound = PInf, var_name = ''x''\<rparr>])
   \<and> read miscast quad_trailer_input = Inl ParseError"
proof (intro conjI impI)
  assume a: "i + 1 < length tokens \<and> tokens ! i = BRKOP
      \<and> quadloop tokens expr (i + 1) b = Inr (expr', j, b')"
  then have t: "tokens ! i = BRKOP" "quadloop tokens expr (i + 1) b = Inr (expr', j, b')"
    "length tokens - i \<ge> 2" by auto
  show "parseexpression_step tokens expr i b True =
           (if j + 2 < length tokens \<and> tokens ! j = BRKCL \<and> tokens ! (j + 1) = SLASH
               \<and> tokens ! (j + 2) = P_CONST (Fin 2)
            then Inr (Some (expr', j + 3, b')) else Inl ParseError)"
    using t(3) unfolding parseexpression_step_def closebracket_def t(1,2)
    by (auto simp: is_CONST_def)
  show "parseexpression_step tokens expr i b False =
           (if j < length tokens \<and> tokens ! j = BRKCL
            then Inr (Some (expr', j + 1, b')) else Inl ParseError)"
    using t(3) unfolding parseexpression_step_def closebracket_def t(1,2)
    by auto
next
  assume "p + 1 < length (sec CON) \<and> sec CON ! p = BRKCL \<and> sec CON ! (p + 1) = SLASH"
  then show "processconsec miscast sec c = Inl ParseError"
    unfolding processconsec_def using processconsec_loop_trailer by blast
next
  assume a: "n \<le> length ts \<and> quadloop ts e n d = Inr (e', n', d')"
  then have r: "quadloop ts e n d = Inr (e', n', d')" and n: "n \<le> length ts" by simp_all
  show "quadterms e' = quadterms e @ fst (spec_block (drop n ts))"
    using quadloop_spec [OF r n] by simp
  show "drop n' ts = snd (spec_block (drop n ts))"
    using quadloop_spec [OF r n] by simp
next
  assume a: "k \<le> length tokens'
       \<and> parseexpression_loop tokens' einit k cinit isobj = Inr (eres, kres, cres)"
  then have r: "parseexpression_loop tokens' einit k cinit isobj = Inr (eres, kres, cres)"
    and k: "k \<le> length tokens'" by simp_all
  show "quadterms eres = quadterms einit @ spec_quadterms isobj (drop k tokens')"
    by (rule parseexpression_loop_spec [OF r k])
next
  assume "processobjsec miscast osec oinit = Inr ores"
  then show "quadterms (objective (model ores)) = spec_quadterms True (spec_unlabel (osec OBJ))"
    by (rule processobjsec_spec)
next
  assume a: "m < length ctoks \<and> processconsec_step miscast ctoks m dinit = Inr (m', dres)"
  then have r: "processconsec_step miscast ctoks m dinit = Inr (m', dres)"
    and m: "m < length ctoks" by simp_all
  show "\<exists>con. constraints (model dres) = constraints (model dinit) @ [con]
             \<and> quadterms (con_expr con)
                 = spec_quadterms False
                     (drop (if is_CONID (ctoks ! 0) then m + 1 else m) ctoks)"
    by (rule processconsec_step_spec [OF r m])
next
  show "read miscast quad_input
       = Inr (\<lparr>sense = SENSE_MIN,
               objective = \<lparr>linterms = [],
                  quadterms = [\<lparr>qt_coef = Fin 2, qt_var1 = ''x'', qt_var2 = ''x''\<rparr>],
                  offset = Fin 0, name = []\<rparr>,
               constraints = [\<lparr>con_lowerbound = MInf, con_upperbound = Fin 4,
                  con_expr = \<lparr>linterms = [],
                     quadterms = [\<lparr>qt_coef = Fin 1, qt_var1 = ''x'', qt_var2 = ''x''\<rparr>],
                     offset = Fin 0, name = []\<rparr>\<rparr>],
               soss = [], model_variables = [''x'']\<rparr>,
              [''x'' \<mapsto> \<lparr>var_type = CONTINUOUS, var_lowerbound = Fin 0,
                           var_upperbound = PInf, var_name = ''x''\<rparr>])"
    by (rule read_quad)
next
  show "read miscast quad_trailer_input = Inl ParseError"
    by (rule read_quad_trailer)
qed

lemma block_quadloop:
  "quadloop block_tokens new_Expression (0 + 1) new_Builder
   = Inr (\<lparr>linterms = [], quadterms = [\<lparr>qt_coef = Fin 3, qt_var1 = ''x'', qt_var2 = ''x''\<rparr>],
             offset = Fin 0, name = []\<rparr>,
          5,
          \<lparr>variables = [''x'' \<mapsto> \<lparr>var_type = CONTINUOUS, var_lowerbound = Fin 0, var_upperbound = PInf,
                                var_name = ''x''\<rparr>],
             model = \<lparr>sense = SENSE_MIN, objective = new_Expression, constraints = [], soss = [],
                        model_variables = [''x'']\<rparr>\<rparr>)"
  by (simp add: block_tokens_def quadloop.simps quadterm_step_def add_quadterm_def
        getvarbyname_def new_Builder_def new_Expression_def new_Variable_def)

lemma block_loop:
  "parseexpression_loop block_tokens new_Expression 0 new_Builder True
   = Inr (\<lparr>linterms = [], quadterms = [\<lparr>qt_coef = Fin 3, qt_var1 = ''x'', qt_var2 = ''x''\<rparr>],
             offset = Fin 0, name = []\<rparr>,
          8,
          \<lparr>variables = [''x'' \<mapsto> \<lparr>var_type = CONTINUOUS, var_lowerbound = Fin 0, var_upperbound = PInf,
                                var_name = ''x''\<rparr>],
             model = \<lparr>sense = SENSE_MIN, objective = new_Expression, constraints = [], soss = [],
                        model_variables = [''x'']\<rparr>\<rparr>)"
  by (simp add: block_tokens_def parseexpression_loop.simps
        parseexpression_step_def quadloop.simps quadterm_step_def closebracket_def
        add_quadterm_def getvarbyname_def new_Builder_def new_Expression_def new_Variable_def)

lemma block_objsec:
  "processobjsec no_miscast ((\<lambda>k. [])(OBJ := block_tokens)) new_Builder
   = Inr \<lparr>variables = [''x'' \<mapsto> \<lparr>var_type = CONTINUOUS, var_lowerbound = Fin 0, var_upperbound = PInf,
                               var_name = ''x''\<rparr>],
            model = \<lparr>sense = SENSE_MIN,
                       objective = \<lparr>linterms = [], quadterms = [\<lparr>qt_coef = Fin 3, qt_var1 = ''x'', qt_var2 = ''x''\<rparr>],
                                     offset = Fin 0, name = []\<rparr>,
                       constraints = [], soss = [], model_variables = [''x'']\<rparr>\<rparr>"
  by (simp add: processobjsec_def parseexpression_def block_loop) (simp add: block_tokens_def)

lemma con_block_step:
  "processconsec_step no_miscast con_block_tokens 0 new_Builder
   = Inr (7,
          \<lparr>variables = [''x'' \<mapsto> \<lparr>var_type = CONTINUOUS, var_lowerbound = Fin 0, var_upperbound = PInf,
                                var_name = ''x''\<rparr>,
                          ''y'' \<mapsto> \<lparr>var_type = CONTINUOUS, var_lowerbound = Fin 0, var_upperbound = PInf,
                                var_name = ''y''\<rparr>],
             model = \<lparr>sense = SENSE_MIN, objective = new_Expression,
                        constraints = [\<lparr>con_lowerbound = MInf, con_upperbound = Fin 4,
                                         con_expr = \<lparr>linterms = [], quadterms = [\<lparr>qt_coef = Fin 1, qt_var1 = ''x'', qt_var2 = ''y''\<rparr>],
                                                      offset = Fin 0, name = []\<rparr>\<rparr>],
                        soss = [], model_variables = [''x'', ''y'']\<rparr>\<rparr>)"
  by (simp add: processconsec_step_def con_block_tokens_def parseexpression_def
        parseexpression_loop.simps
        parseexpression_step_def quadloop.simps quadterm_step_def closebracket_def
        new_Constraint_def push_constraint_def
        add_quadterm_def getvarbyname_def new_Builder_def new_Expression_def new_Variable_def)

lemma block_spec_block:
  "spec_block (drop 1 block_tokens)
   = ([\<lparr>qt_coef = Fin 3, qt_var1 = ''x'', qt_var2 = ''x''\<rparr>], [BRKCL, SLASH, P_CONST (Fin 2)])"
  by (simp add: block_tokens_def spec_block.simps spec_quadterm_def)

lemma block_spec_quadterms:
  "spec_quadterms True block_tokens = [\<lparr>qt_coef = Fin 3, qt_var1 = ''x'', qt_var2 = ''x''\<rparr>]"
  by (simp add: block_tokens_def spec_quadterms.simps spec_block.simps spec_quadterm_def)

lemma con_block_spec_quadterms:
  "spec_quadterms False con_block_tokens = [\<lparr>qt_coef = Fin 1, qt_var1 = ''x'', qt_var2 = ''y''\<rparr>]"
  by (simp add: con_block_tokens_def spec_quadterms.simps spec_block.simps spec_quadterm_def)

theorem quadratic_block_closing_witness:
  "quadloop block_tokens new_Expression (0 + 1) new_Builder
     = Inr (\<lparr>linterms = [], quadterms = [\<lparr>qt_coef = Fin 3, qt_var1 = ''x'', qt_var2 = ''x''\<rparr>],
               offset = Fin 0, name = []\<rparr>,
            5,
            \<lparr>variables = [''x'' \<mapsto> \<lparr>var_type = CONTINUOUS, var_lowerbound = Fin 0, var_upperbound = PInf,
                                  var_name = ''x''\<rparr>],
               model = \<lparr>sense = SENSE_MIN, objective = new_Expression, constraints = [], soss = [],
                          model_variables = [''x'']\<rparr>\<rparr>)
   \<and> parseexpression_step block_tokens new_Expression 0 new_Builder True
     = Inr (Some (\<lparr>linterms = [], quadterms = [\<lparr>qt_coef = Fin 3, qt_var1 = ''x'', qt_var2 = ''x''\<rparr>],
                     offset = Fin 0, name = []\<rparr>,
                  8,
                  \<lparr>variables = [''x'' \<mapsto> \<lparr>var_type = CONTINUOUS, var_lowerbound = Fin 0, var_upperbound = PInf,
                                        var_name = ''x''\<rparr>],
                     model = \<lparr>sense = SENSE_MIN, objective = new_Expression, constraints = [], soss = [],
                                model_variables = [''x'']\<rparr>\<rparr>))
   \<and> parseexpression_step block_tokens new_Expression 0 new_Builder False
     = Inr (Some (\<lparr>linterms = [], quadterms = [\<lparr>qt_coef = Fin 3, qt_var1 = ''x'', qt_var2 = ''x''\<rparr>],
                     offset = Fin 0, name = []\<rparr>,
                  6,
                  \<lparr>variables = [''x'' \<mapsto> \<lparr>var_type = CONTINUOUS, var_lowerbound = Fin 0, var_upperbound = PInf,
                                        var_name = ''x''\<rparr>],
                     model = \<lparr>sense = SENSE_MIN, objective = new_Expression, constraints = [], soss = [],
                                model_variables = [''x'']\<rparr>\<rparr>))
   \<and> processconsec no_miscast ((\<lambda>k. [])(CON := block_tokens)) new_Builder = Inl ParseError
   \<and> fst (spec_block (drop 1 block_tokens))
     = [\<lparr>qt_coef = Fin 3, qt_var1 = ''x'', qt_var2 = ''x''\<rparr>]
   \<and> snd (spec_block (drop 1 block_tokens)) = [BRKCL, SLASH, P_CONST (Fin 2)]
   \<and> parseexpression_loop block_tokens new_Expression 0 new_Builder True
     = Inr (\<lparr>linterms = [], quadterms = [\<lparr>qt_coef = Fin 3, qt_var1 = ''x'', qt_var2 = ''x''\<rparr>],
               offset = Fin 0, name = []\<rparr>,
            8,
            \<lparr>variables = [''x'' \<mapsto> \<lparr>var_type = CONTINUOUS, var_lowerbound = Fin 0, var_upperbound = PInf,
                                  var_name = ''x''\<rparr>],
               model = \<lparr>sense = SENSE_MIN, objective = new_Expression, constraints = [], soss = [],
                          model_variables = [''x'']\<rparr>\<rparr>)
   \<and> spec_quadterms True block_tokens
     = [\<lparr>qt_coef = Fin 3, qt_var1 = ''x'', qt_var2 = ''x''\<rparr>]
   \<and> processobjsec no_miscast ((\<lambda>k. [])(OBJ := block_tokens)) new_Builder
     = Inr \<lparr>variables = [''x'' \<mapsto> \<lparr>var_type = CONTINUOUS, var_lowerbound = Fin 0, var_upperbound = PInf,
                                 var_name = ''x''\<rparr>],
              model = \<lparr>sense = SENSE_MIN,
                         objective = \<lparr>linterms = [], quadterms = [\<lparr>qt_coef = Fin 3, qt_var1 = ''x'', qt_var2 = ''x''\<rparr>],
                                       offset = Fin 0, name = []\<rparr>,
                         constraints = [], soss = [], model_variables = [''x'']\<rparr>\<rparr>
   \<and> spec_quadterms True (spec_unlabel block_tokens)
     = [\<lparr>qt_coef = Fin 3, qt_var1 = ''x'', qt_var2 = ''x''\<rparr>]
   \<and> processconsec_step no_miscast con_block_tokens 0 new_Builder
     = Inr (7,
            \<lparr>variables = [''x'' \<mapsto> \<lparr>var_type = CONTINUOUS, var_lowerbound = Fin 0, var_upperbound = PInf,
                                  var_name = ''x''\<rparr>,
                            ''y'' \<mapsto> \<lparr>var_type = CONTINUOUS, var_lowerbound = Fin 0, var_upperbound = PInf,
                                  var_name = ''y''\<rparr>],
               model = \<lparr>sense = SENSE_MIN, objective = new_Expression,
                          constraints = [\<lparr>con_lowerbound = MInf, con_upperbound = Fin 4,
                                           con_expr = \<lparr>linterms = [], quadterms = [\<lparr>qt_coef = Fin 1, qt_var1 = ''x'', qt_var2 = ''y''\<rparr>],
                                                        offset = Fin 0, name = []\<rparr>\<rparr>],
                          soss = [], model_variables = [''x'', ''y'']\<rparr>\<rparr>)
   \<and> spec_quadterms False con_block_tokens
     = [\<lparr>qt_coef = Fin 1, qt_var1 = ''x'', qt_var2 = ''y''\<rparr>]"
proof -
  let ?E = "\<lparr>linterms = [], quadterms = [\<lparr>qt_coef = Fin 3, qt_var1 = ''x'', qt_var2 = ''x''\<rparr>],
               offset = Fin 0, name = []\<rparr>"
  let ?B = "\<lparr>variables = [''x'' \<mapsto> \<lparr>var_type = CONTINUOUS, var_lowerbound = Fin 0, var_upperbound = PInf,
                                  var_name = ''x''\<rparr>],
               model = \<lparr>sense = SENSE_MIN, objective = new_Expression, constraints = [], soss = [],
                          model_variables = [''x'']\<rparr>\<rparr>"
  let ?O = "\<lparr>variables = [''x'' \<mapsto> \<lparr>var_type = CONTINUOUS, var_lowerbound = Fin 0, var_upperbound = PInf,
                                  var_name = ''x''\<rparr>],
               model = \<lparr>sense = SENSE_MIN,
                          objective = \<lparr>linterms = [], quadterms = [\<lparr>qt_coef = Fin 3, qt_var1 = ''x'', qt_var2 = ''x''\<rparr>],
                                        offset = Fin 0, name = []\<rparr>,
                          constraints = [], soss = [], model_variables = [''x'']\<rparr>\<rparr>"
  let ?D = "\<lparr>variables = [''x'' \<mapsto> \<lparr>var_type = CONTINUOUS, var_lowerbound = Fin 0, var_upperbound = PInf,
                                  var_name = ''x''\<rparr>,
                            ''y'' \<mapsto> \<lparr>var_type = CONTINUOUS, var_lowerbound = Fin 0, var_upperbound = PInf,
                                  var_name = ''y''\<rparr>],
               model = \<lparr>sense = SENSE_MIN, objective = new_Expression,
                          constraints = [\<lparr>con_lowerbound = MInf, con_upperbound = Fin 4,
                                           con_expr = \<lparr>linterms = [], quadterms = [\<lparr>qt_coef = Fin 1, qt_var1 = ''x'', qt_var2 = ''y''\<rparr>],
                                                        offset = Fin 0, name = []\<rparr>\<rparr>],
                          soss = [], model_variables = [''x'', ''y'']\<rparr>\<rparr>"
  show ?thesis
    using quadratic_block_closing [where i = 0 and tokens = block_tokens
        and expr = new_Expression and b = new_Builder and expr' = ?E and j = 5 and b' = ?B
        and p = 5 and sec = "(\<lambda>k. [])(CON := block_tokens)" and miscast = no_miscast
        and c = new_Builder
        and ts = block_tokens and n = 1 and e = new_Expression and d = new_Builder
        and e' = ?E and n' = 5 and d' = ?B
        and tokens' = block_tokens and k = 0 and einit = new_Expression and cinit = new_Builder
        and isobj = True and eres = ?E and kres = 8 and cres = ?B
        and osec = "(\<lambda>k. [])(OBJ := block_tokens)" and oinit = new_Builder and ores = ?O
        and ctoks = con_block_tokens and m = 0 and dinit = new_Builder and m' = 7
        and dres = ?D]
      block_quadloop block_loop block_objsec con_block_step
      block_spec_block block_spec_quadterms con_block_spec_quadterms
    by (simp add: spec_unlabel_def) (simp add: block_tokens_def con_block_tokens_def)
qed

end
